theory Spec2Isabelle
  imports Complex_Main "HOL-Library.Multiset" "HOL-Library.Sublist"
begin

section \<open>Heads-up poker: hand evaluator and host-authoritative betting engine\<close>

text \<open>
  The development embeds two parts of the repository.

  \<^item> The hand evaluator (\<open>compareScore\<close>, \<open>getStraightHigh\<close>, \<open>evaluate7\<close>,
    \<open>best5From7\<close>), which is the same text in the page component and in the host
    controller.
  \<^item> The class \<open>MultiplayerHost\<close>: its state \<open>HostState\<close> is a record, every method
    is a function from the state before the call to the state after it. The methods are
    those of \<open>src/unnamed/part_001\<close>; of the older text of the class in
    \<open>src/app/multiplayerHost.ts\<close> the method \<open>resolveShowdown\<close> is embedded as well.

  Numbers. The source computes in JavaScript numbers. Chip amounts are modelled as exact
  rationals, and \<open>Math.round(x)\<close> as \<open>\<lfloor>x + 1/2\<rfloor>\<close> (halves round upwards); the binary
  rounding of IEEE doubles is not modelled. Card values and scores are integers.

  Randomness and time. \<open>dealCards\<close> shuffles with \<open>Math.random\<close>; the nine dealt cards
  are a parameter of \<open>startHand\<close>. The \<open>id\<close> of a log item contains \<open>Date.now()\<close> and is
  left out. Broadcasting the state and the display callback do not change the state and
  are left out.
\<close>

subsection \<open>Cards\<close>

datatype card_rank = RA | RK | RQ | RJ | RT | R9 | R8 | R7 | R6 | R5 | R4 | R3 | R2

datatype card_suit = Spades | Hearts | Diamonds | Clubs

record card =
  rank :: card_rank
  suit :: card_suit

fun RANK_TO_VALUE :: "card_rank \<Rightarrow> int" where
  "RANK_TO_VALUE RA = 14"
| "RANK_TO_VALUE RK = 13"
| "RANK_TO_VALUE RQ = 12"
| "RANK_TO_VALUE RJ = 11"
| "RANK_TO_VALUE RT = 10"
| "RANK_TO_VALUE R9 = 9"
| "RANK_TO_VALUE R8 = 8"
| "RANK_TO_VALUE R7 = 7"
| "RANK_TO_VALUE R6 = 6"
| "RANK_TO_VALUE R5 = 5"
| "RANK_TO_VALUE R4 = 4"
| "RANK_TO_VALUE R3 = 3"
| "RANK_TO_VALUE R2 = 2"

definition card_value :: "card \<Rightarrow> int" where
  "card_value c = RANK_TO_VALUE (rank c)"

subsection \<open>Library functions of the source language\<close>

text \<open>
  \<open>Array.prototype.sort(cmp)\<close> is stable; it is modelled as a stable insertion sort
  that uses the comparator as the source passes it.
\<close>

fun insort_cmp :: "('a \<Rightarrow> 'a \<Rightarrow> int) \<Rightarrow> 'a \<Rightarrow> 'a list \<Rightarrow> 'a list" where
  "insort_cmp cmp x [] = [x]"
| "insort_cmp cmp x (y # ys) = (if cmp x y \<le> 0 then x # y # ys else y # insort_cmp cmp x ys)"

definition js_sort :: "('a \<Rightarrow> 'a \<Rightarrow> int) \<Rightarrow> 'a list \<Rightarrow> 'a list" where
  "js_sort cmp xs = foldr (insort_cmp cmp) xs []"

definition desc :: "int \<Rightarrow> int \<Rightarrow> int" where
  "desc a b = b - a"

text \<open>\<open>Array.from(new Set(xs))\<close>: the first occurrence of every element, in order.\<close>

fun uniq_acc :: "'a list \<Rightarrow> 'a list \<Rightarrow> 'a list" where
  "uniq_acc seen [] = []"
| "uniq_acc seen (x # xs) = (if x \<in> set seen then uniq_acc seen xs else x # uniq_acc (x # seen) xs)"

definition uniq :: "'a list \<Rightarrow> 'a list" where
  "uniq xs = uniq_acc [] xs"

text \<open>
  A \<open>Map\<close> keeps its keys in insertion order; it is an association list.
  \<open>counts_bump\<close> is \<open>counts.set(v, (counts.get(v) ?? 0) + 1)\<close>, and \<open>suits_push\<close> is
  the three lines that append \<open>v\<close> to the array stored under the suit.
\<close>

fun counts_bump :: "int \<Rightarrow> (int \<times> nat) list \<Rightarrow> (int \<times> nat) list" where
  "counts_bump v [] = [(v, 1)]"
| "counts_bump v ((k, c) # m) = (if k = v then (k, c + 1) # m else (k, c) # counts_bump v m)"

fun suits_push :: "card_suit \<Rightarrow> int \<Rightarrow> (card_suit \<times> int list) list \<Rightarrow> (card_suit \<times> int list) list" where
  "suits_push s v [] = [(s, [v])]"
| "suits_push s v ((k, arr) # m) = (if k = s then (k, arr @ [v]) # m else (k, arr) # suits_push s v m)"

subsection \<open>The evaluator\<close>

fun compareScore :: "int list \<Rightarrow> int list \<Rightarrow> int" where
  "compareScore [] [] = 0"
| "compareScore (a # xs) [] = (if a > 0 then 1 else if a < 0 then - 1 else compareScore xs [])"
| "compareScore [] (b # ys) = (if 0 > b then 1 else if 0 < b then - 1 else compareScore [] ys)"
| "compareScore (a # xs) (b # ys) = (if a > b then 1 else if a < b then - 1 else compareScore xs ys)"

text \<open>
  The loop of \<open>getStraightHigh\<close>, with the loop variables \<open>i\<close> and \<open>run\<close> as arguments.
  When \<open>run\<close> reaches 5 the index \<open>i\<close> is at least 3 on every call that starts from
  \<open>i = 0\<close>, \<open>run = 1\<close>, so \<open>vals[i - 3]\<close> is in range.
\<close>

function straightLoop :: "int list \<Rightarrow> nat \<Rightarrow> nat \<Rightarrow> int option" where
  "straightLoop vals i run =
     (if i + 1 < length vals then
        (if vals ! i - 1 = vals ! (i + 1) then
           (if run + 1 \<ge> 5 then
              (let high = vals ! (i - 3) in Some (if high = 1 then 5 else high))
            else straightLoop vals (i + 1) (run + 1))
         else straightLoop vals (i + 1) 1)
      else None)"
  by pat_completeness auto
termination
  by (relation "measure (\<lambda>(vals, i, run). length vals - i)") auto

definition getStraightHigh :: "int list \<Rightarrow> int option" where
  "getStraightHigh valuesUniqueDesc =
     (let vals = (if valuesUniqueDesc \<noteq> [] \<and> hd valuesUniqueDesc = 14
                  then valuesUniqueDesc @ [1] else valuesUniqueDesc)
      in straightLoop vals 0 1)"

definition card_counts :: "card list \<Rightarrow> (int \<times> nat) list" where
  "card_counts cards = foldl (\<lambda>m c. counts_bump (card_value c) m) [] cards"

definition card_suits :: "card list \<Rightarrow> (card_suit \<times> int list) list" where
  "card_suits cards = foldl (\<lambda>m c. suits_push (suit c) (card_value c) m) [] cards"

definition group_cmp :: "int \<times> nat \<Rightarrow> int \<times> nat \<Rightarrow> int" where
  "group_cmp a b = (if snd b \<noteq> snd a then int (snd b) - int (snd a) else fst b - fst a)"

definition flush_step :: "card_suit option \<times> int list \<Rightarrow> card_suit \<times> int list \<Rightarrow> card_suit option \<times> int list" where
  "flush_step acc e =
     (if length (snd e) \<ge> 5 then
        (let sorted = js_sort desc (snd e) in
         if fst acc = None \<or> compareScore sorted (snd acc) > 0 then (Some (fst e), sorted) else acc)
      else acc)"

definition flush_scan :: "(card_suit \<times> int list) list \<Rightarrow> card_suit option \<times> int list" where
  "flush_scan suits = foldl flush_step (None, []) suits"

definition find_or_zero :: "(int \<Rightarrow> bool) \<Rightarrow> int list \<Rightarrow> int" where
  "find_or_zero P xs = (case List.find P xs of None \<Rightarrow> 0 | Some v \<Rightarrow> v)"

definition evaluate7 :: "card list \<Rightarrow> int list" where
  "evaluate7 cards =
     (let values = js_sort desc (map card_value cards);
          groups = js_sort group_cmp (card_counts cards);
          fl = flush_scan (card_suits cards);
          flushSuit = fst fl;
          flushValsDesc = snd fl;
          uniqueDesc = js_sort desc (uniq values);
          straightHigh = getStraightHigh uniqueDesc;
          sfHigh = (if flushSuit \<noteq> None then getStraightHigh (js_sort desc (uniq flushValsDesc)) else None);
          cnt0 = (case groups of [] \<Rightarrow> None | g # _ \<Rightarrow> Some (snd g));
          v0 = (case groups of [] \<Rightarrow> 0 | g # _ \<Rightarrow> fst g);
          pairCandidate = List.find (\<lambda>g. fst g \<noteq> v0 \<and> snd g \<ge> 2) groups;
          pairs = js_sort desc (map fst (filter (\<lambda>g. snd g = 2) groups))
      in
      if sfHigh \<noteq> None then [8, the sfHigh]
      else if cnt0 = Some 4 then [7, v0, find_or_zero (\<lambda>v. v \<noteq> v0) uniqueDesc]
      else if cnt0 = Some 3 \<and> pairCandidate \<noteq> None then [6, v0, fst (the pairCandidate)]
      else if flushSuit \<noteq> None then 5 # take 5 flushValsDesc
      else if straightHigh \<noteq> None then [4, the straightHigh]
      else if cnt0 = Some 3 then 3 # v0 # take 2 (filter (\<lambda>v. v \<noteq> v0) uniqueDesc)
      else if cnt0 = Some 2 \<and> length pairs \<ge> 2 then
        [2, pairs ! 0, pairs ! 1, find_or_zero (\<lambda>v. v \<noteq> pairs ! 0 \<and> v \<noteq> pairs ! 1) uniqueDesc]
      else if cnt0 = Some 2 then 1 # v0 # take 3 (filter (\<lambda>v. v \<noteq> v0) uniqueDesc)
      else 0 # take 5 uniqueDesc)"

text \<open>
  \<open>best5From7\<close>: the five nested loops enumerate the index tuples \<open>a < b < c < d < e\<close>
  in lexicographic order, which is the order of \<open>combos 5\<close>; the first hand with the
  greatest score is kept.
\<close>

fun combos :: "nat \<Rightarrow> 'a list \<Rightarrow> 'a list list" where
  "combos 0 xs = [[]]"
| "combos (Suc k) [] = []"
| "combos (Suc k) (x # xs) = map ((#) x) (combos k xs) @ combos (Suc k) xs"

definition best_step :: "int list option \<times> card list \<Rightarrow> card list \<Rightarrow> int list option \<times> card list" where
  "best_step acc hand =
     (let score = evaluate7 hand in
      if fst acc = None \<or> compareScore score (the (fst acc)) > 0 then (Some score, hand) else acc)"

definition best5From7 :: "card list \<Rightarrow> card list" where
  "best5From7 all = snd (foldl best_step (None, []) (combos 5 all))"

subsection \<open>The host state\<close>

datatype seat = Top | Bottom

datatype street = Preflop | Flop | Turn | River

text \<open>The type \<open>Street = 0 | 3 | 4 | 5\<close> counts the board cards that are shown.\<close>

fun street_count :: "street \<Rightarrow> nat" where
  "street_count Preflop = 0"
| "street_count Flop = 3"
| "street_count Turn = 4"
| "street_count River = 5"

datatype hand_status = Playing | Ended

datatype winner_of = Seat seat | Tie

datatype end_reason = ByFold | ByShowdown

datatype game_action = FOLD | CHECK | CALL | BET_RAISE_TO rat

text \<open>
  The objects \<open>{ top: ..., bottom: ... }\<close> are indexed by a seat in the source
  (\<open>stacks[seat]\<close>); they are functions on \<open>seat\<close>.
\<close>

definition both :: "'a \<Rightarrow> 'a \<Rightarrow> seat \<Rightarrow> 'a" where
  "both t b = (\<lambda>s. case s of Top \<Rightarrow> t | Bottom \<Rightarrow> b)"

record game_state =
  stacks :: "seat \<Rightarrow> rat"
  bets :: "seat \<Rightarrow> rat"
  pot :: rat

record hand_result =
  status :: hand_status
  winner :: "winner_of option"
  reason :: "end_reason option"
  message :: string

text \<open>
  The text of a log item is a template string around a number or two cards; the
  constructor keeps the template and its arguments.
\<close>

datatype log_text =
    PostsSB rat | PostsBB rat | Folds | Wins rat | Checks | Calls rat
  | RaisesTo rat | Bets rat | Shows "card list" | Mucked | SplitPot rat | WinsShowdown rat
  | SplitsPot rat

record action_log_item =
  log_sequence :: nat
  log_street :: street
  log_seat :: seat
  log_text :: log_text

record host_state =
  game :: game_state
  street :: street
  toAct :: seat
  cards :: "card list option"
  handId :: nat
  dealerOffset :: nat
  dealerSeat :: seat
  gameSession :: nat
  actionLog :: "action_log_item list"
  actionSequence :: nat
  handResult :: hand_result
  gameOver :: bool
  blindsPosted :: bool
  lastRaiseSize :: rat
  lastAggressor :: "seat option"
  actionsThisStreet :: nat
  checked :: "seat \<Rightarrow> bool"
  oppRevealed :: bool
  youMucked :: bool
  canShowTop :: bool
  canShowBottom :: bool
  topShowed :: bool
  bottomShowed :: bool
  handStartStacks :: "seat \<Rightarrow> rat"

definition SB :: rat where
  "SB = 1 / 2"

definition BB :: rat where
  "BB = 1"

definition STARTING_STACK_BB :: rat where
  "STARTING_STACK_BB = 25"

definition BLINDS_INCREASE_EVERY_N_HANDS :: nat where
  "BLINDS_INCREASE_EVERY_N_HANDS = 5"

definition roundToHundredth :: "rat \<Rightarrow> rat" where
  "roundToHundredth n = of_int \<lfloor>n * 100 + 1 / 2\<rfloor> / 100"

definition otherOf :: "seat \<Rightarrow> seat" where
  "otherOf seat = (if seat = Top then Bottom else Top)"

definition dealerOf :: "host_state \<Rightarrow> seat" where
  "dealerOf s = (if dealerOffset s = 0 then Top else Bottom)"

definition createInitialState :: "nat \<Rightarrow> host_state" where
  "createInitialState initialDealerOffset =
     (let initialDealerSeat = (if initialDealerOffset = 0 then Top else Bottom) in
      \<lparr> game = \<lparr> stacks = both STARTING_STACK_BB STARTING_STACK_BB, bets = both 0 0, pot = 0 \<rparr>,
        street = Preflop,
        toAct = initialDealerSeat,
        cards = None,
        handId = 0,
        dealerOffset = initialDealerOffset,
        dealerSeat = initialDealerSeat,
        gameSession = 0,
        actionLog = [],
        actionSequence = 0,
        handResult = \<lparr> status = Playing, winner = None, reason = None, message = [] \<rparr>,
        gameOver = False,
        blindsPosted = False,
        lastRaiseSize = BB,
        lastAggressor = None,
        actionsThisStreet = 0,
        checked = both False False,
        oppRevealed = False,
        youMucked = False,
        canShowTop = False,
        canShowBottom = False,
        topShowed = False,
        bottomShowed = False,
        handStartStacks = both STARTING_STACK_BB STARTING_STACK_BB \<rparr>)"

definition logAction :: "seat \<Rightarrow> log_text \<Rightarrow> host_state \<Rightarrow> host_state" where
  "logAction seat text s =
     s\<lparr> actionLog := actionLog s @
           [\<lparr> log_sequence = actionSequence s, log_street = street s, log_seat = seat, log_text = text \<rparr>],
        actionSequence := actionSequence s + 1 \<rparr>"

definition postBlinds :: "host_state \<Rightarrow> host_state" where
  "postBlinds s =
     (let dealer = dealerOf s;
          nonDealer = otherOf dealer;
          g = game s;
          actualSB = min SB (stacks g dealer);
          actualBB = min BB (stacks g nonDealer);
          bets1 = (bets g)(dealer := roundToHundredth actualSB);
          bets2 = bets1(nonDealer := roundToHundredth actualBB);
          stacks1 = (stacks g)(dealer := roundToHundredth (stacks g dealer - actualSB));
          stacks2 = stacks1(nonDealer := roundToHundredth (stacks1 nonDealer - actualBB));
          s1 = s\<lparr> game := g\<lparr> bets := bets2, stacks := stacks2 \<rparr>, toAct := dealer \<rparr>;
          s2 = logAction dealer (PostsSB actualSB) s1;
          s3 = logAction nonDealer (PostsBB actualBB) s2
      in s3\<lparr> blindsPosted := True \<rparr>)"

text \<open>\<open>startHand\<close>; the argument \<open>deck\<close> is what \<open>dealCards()\<close> returns.\<close>

definition startHand :: "card list \<Rightarrow> host_state \<Rightarrow> host_state" where
  "startHand deck s0 =
     (let hasPlayedAHand = (length (actionLog s0) > 0);
          s1 = (if handId s0 > 0 \<or> hasPlayedAHand then s0\<lparr> handId := handId s0 + 1 \<rparr> else s0);
          s2 = (if handId s1 > 0 then
                  (let off = (if dealerOffset s1 = 0 then 1 else 0) in
                   s1\<lparr> dealerOffset := off, dealerSeat := (if off = 0 then Top else Bottom) \<rparr>)
                else s1);
          s3 = (if handId s2 > 0 \<and> handId s2 mod BLINDS_INCREASE_EVERY_N_HANDS = 0 then
                  (let g = game s2;
                       t = of_int \<lfloor>stacks g Top * (3 / 4) * 100 + 1 / 2\<rfloor> / 100;
                       b = of_int \<lfloor>stacks g Bottom * (3 / 4) * 100 + 1 / 2\<rfloor> / 100
                   in s2\<lparr> game := g\<lparr> stacks := ((stacks g)(Top := t))(Bottom := b) \<rparr> \<rparr>)
                else s2);
          s4 = s3\<lparr> handStartStacks := both (stacks (game s3) Top) (stacks (game s3) Bottom) \<rparr>;
          s5 = s4\<lparr> cards := Some deck \<rparr>;
          s6 = s5\<lparr> handResult := \<lparr> status = Playing, winner = None, reason = None, message = [] \<rparr>,
                   actionLog := [],
                   actionSequence := 0,
                   street := Preflop,
                   lastAggressor := None,
                   actionsThisStreet := 0,
                   checked := both False False,
                   oppRevealed := False,
                   youMucked := False,
                   canShowTop := False,
                   canShowBottom := False,
                   topShowed := False,
                   bottomShowed := False,
                   lastRaiseSize := BB \<rparr>
      in postBlinds s6)"

definition checkGameOver :: "host_state \<Rightarrow> host_state" where
  "checkGameOver s =
     (if stacks (game s) Top \<le> 0 \<or> stacks (game s) Bottom \<le> 0 then s\<lparr> gameOver := True \<rparr> else s)"

definition handleFold :: "seat \<Rightarrow> host_state \<Rightarrow> host_state" where
  "handleFold seat s =
     (let win = otherOf seat;
          s1 = logAction seat Folds s;
          g = game s1;
          potSize = pot g + bets g Top + bets g Bottom;
          s2 = s1\<lparr> handResult := \<lparr> status = Ended, winner = Some (Seat win), reason = Some ByFold,
                                      message = (if win = Bottom then ''You'' else ''Opponent'') @ '' wins'' \<rparr> \<rparr>;
          s3 = s2\<lparr> game := g\<lparr> stacks := (stacks g)(win := stacks g win + potSize),
                                pot := 0, bets := both 0 0 \<rparr> \<rparr>;
          s4 = logAction win (Wins potSize) s3;
          s5 = s4\<lparr> canShowTop := True, canShowBottom := True, topShowed := False, bottomShowed := False \<rparr>
      in checkGameOver s5)"

text \<open>
  \<open>resolveShowdown\<close> is one long method; its consecutive blocks are separate
  definitions here: the comparison of the two hands, the show order with its flags and
  log lines, the award of the pot, and the test for the end of the match.
\<close>

definition allCards :: "host_state \<Rightarrow> card list" where
  "allCards s = (case cards s of None \<Rightarrow> [] | Some cs \<Rightarrow> cs)"

definition boardOf :: "host_state \<Rightarrow> card list" where
  "boardOf s = take (street_count (street s)) (take 5 (drop 4 (allCards s)))"

definition holeOf :: "seat \<Rightarrow> host_state \<Rightarrow> card list" where
  "holeOf seat s = (if seat = Top then take 2 (allCards s) else take 2 (drop 2 (allCards s)))"

definition showdownCmp :: "host_state \<Rightarrow> int" where
  "showdownCmp s =
     (let board = boardOf s;
          top7 = holeOf Top s @ board;
          bottom7 = holeOf Bottom s @ board;
          topScore = evaluate7 top7;
          bottomScore = evaluate7 bottom7
      in compareScore bottomScore topScore)"

definition showdownWinner :: "host_state \<Rightarrow> winner_of" where
  "showdownWinner s =
     (let cmp = showdownCmp s
      in if cmp > 0 then Seat Bottom else if cmp < 0 then Seat Top else Tie)"

definition showdownResult :: "winner_of \<Rightarrow> hand_result" where
  "showdownResult win =
     \<lparr> status = Ended, winner = Some win, reason = Some ByShowdown,
       message = (if win = Seat Bottom then ''You win''
                  else if win = Seat Top then ''Opponent wins'' else ''Tie'') \<rparr>"

definition firstToShowOf :: "host_state \<Rightarrow> seat" where
  "firstToShowOf s =
     (let dealer = dealerOf s;
          nonDealer = otherOf dealer;
          riverCheckedThrough = (checked s Top \<and> checked s Bottom \<and> lastAggressor s = None)
      in if riverCheckedThrough then nonDealer
         else (case lastAggressor s of None \<Rightarrow> nonDealer | Some a \<Rightarrow> a))"

definition secondShowsOf :: "winner_of \<Rightarrow> host_state \<Rightarrow> bool" where
  "secondShowsOf win s =
     (let secondToShow = otherOf (firstToShowOf s);
          someoneAllIn = (stacks (game s) Top \<le> 0 \<or> stacks (game s) Bottom \<le> 0)
      in someoneAllIn \<or> win = Tie \<or> win = Seat secondToShow)"

definition showdownFlags :: "winner_of \<Rightarrow> seat \<Rightarrow> bool \<Rightarrow> host_state \<Rightarrow> host_state" where
  "showdownFlags win firstToShow secondShows s =
     (let secondToShow = otherOf firstToShow;
          topShows = (firstToShow = Top \<or> (secondToShow = Top \<and> secondShows));
          bottomShows = (firstToShow = Bottom \<or> (secondToShow = Bottom \<and> secondShows));
          s2 = s\<lparr> oppRevealed := topShows, youMucked := (\<not> bottomShows) \<rparr>;
          s3 = (if win = Tie then s2\<lparr> canShowTop := False, canShowBottom := False \<rparr>
                else s2\<lparr> canShowTop := (win \<noteq> Seat Top \<and> \<not> topShows),
                         canShowBottom := (win \<noteq> Seat Bottom \<and> \<not> bottomShows) \<rparr>)
      in s3\<lparr> topShowed := False, bottomShowed := False \<rparr>)"

definition cardStr :: "card list \<Rightarrow> card list option" where
  "cardStr cs = (if length cs = 2 then Some cs else None)"

definition logShow :: "seat \<Rightarrow> host_state \<Rightarrow> host_state" where
  "logShow seat s =
     (let topCards = holeOf Top s;
          bottomCards = holeOf Bottom s
      in if seat = Top \<and> cardStr topCards \<noteq> None then logAction Top (Shows topCards) s
         else if seat = Bottom \<and> cardStr bottomCards \<noteq> None then logAction Bottom (Shows bottomCards) s
         else s)"

definition showdownLog :: "seat \<Rightarrow> bool \<Rightarrow> host_state \<Rightarrow> host_state" where
  "showdownLog firstToShow secondShows s =
     (let s5 = logShow firstToShow s in
      if secondShows then logShow (otherOf firstToShow) s5
      else logAction (otherOf firstToShow) Mucked s5)"

definition awardPot :: "winner_of \<Rightarrow> host_state \<Rightarrow> host_state" where
  "awardPot win s =
     (let g = game s;
          potSize = pot g + bets g Top + bets g Bottom;
          s7 = (case win of
                  Tie \<Rightarrow>
                    (let half = potSize / 2;
                         st = ((stacks g)(Top := stacks g Top + half));
                         st' = st(Bottom := st Bottom + half);
                         a = s\<lparr> game := g\<lparr> stacks := st' \<rparr> \<rparr>;
                         b = logAction Top (SplitPot half) a
                     in logAction Bottom (SplitPot half) b)
                | Seat w \<Rightarrow>
                    logAction w (WinsShowdown potSize)
                      (s\<lparr> game := g\<lparr> stacks := (stacks g)(w := stacks g w + potSize) \<rparr> \<rparr>))
      in s7\<lparr> game := (game s7)\<lparr> pot := 0, bets := both 0 0 \<rparr> \<rparr>)"

definition resolveShowdown :: "host_state \<Rightarrow> host_state" where
  "resolveShowdown s =
     (let win = showdownWinner s;
          s1 = s\<lparr> handResult := showdownResult win \<rparr>;
          firstToShow = firstToShowOf s1;
          secondShows = secondShowsOf win s1;
          s4 = showdownFlags win firstToShow secondShows s1;
          s6 = showdownLog firstToShow secondShows s4;
          s8 = awardPot win s6
      in checkGameOver s8)"

text \<open>
  The copy of \<open>resolveShowdown\<close> in \<open>src/app/multiplayerHost.ts\<close>, an older text of the
  same class. The state type of that file has the fields of \<open>host_state\<close> without the
  four show-hand flags, which the method does not touch. The value of \<open>Math.random()\<close>
  is the argument \<open>random\<close>. The variable \<open>winner\<close> has the type \<open>Seat | "tie"\<close>, and
  the branch for a tie is kept as the source has it.
\<close>

definition resolveShowdown_app :: "rat \<Rightarrow> host_state \<Rightarrow> host_state" where
  "resolveShowdown_app random s =
     (let win = (if random > 1 / 2 then Seat Top else Seat Bottom);
          s1 = s\<lparr> handResult :=
                   \<lparr> status = Ended, winner = Some win, reason = Some ByShowdown,
                     message = (if win = Tie then ''Split pot''
                                else if win = Seat Bottom then ''You win'' else ''Opponent wins'') \<rparr> \<rparr>;
          s2 = s1\<lparr> oppRevealed := True \<rparr>;
          g = game s2;
          potSize = pot g + bets g Top + bets g Bottom;
          s3 = (case win of
                  Tie \<Rightarrow>
                    (let st = (stacks g)(Top := stacks g Top + potSize / 2);
                         st' = st(Bottom := st Bottom + potSize / 2)
                     in logAction Top (SplitsPot (potSize / 2)) (s2\<lparr> game := g\<lparr> stacks := st' \<rparr> \<rparr>))
                | Seat w \<Rightarrow>
                    logAction w (Wins potSize)
                      (s2\<lparr> game := g\<lparr> stacks := (stacks g)(w := stacks g w + potSize) \<rparr> \<rparr>))
      in s3\<lparr> game := (game s3)\<lparr> pot := 0, bets := both 0 0 \<rparr> \<rparr>)"

definition pullBets :: "game_state \<Rightarrow> game_state" where
  "pullBets g = g\<lparr> pot := pot g + (bets g Top + bets g Bottom), bets := both 0 0 \<rparr>"

definition advanceStreet :: "host_state \<Rightarrow> host_state" where
  "advanceStreet s =
     (let s1 = s\<lparr> game := pullBets (game s) \<rparr>;
          someoneAllIn = (stacks (game s1) Top \<le> 0 \<or> stacks (game s1) Bottom \<le> 0)
      in case street s1 of
           River \<Rightarrow> resolveShowdown s1
         | st \<Rightarrow>
            (let s2 = s1\<lparr> street := (case st of Preflop \<Rightarrow> Flop | Flop \<Rightarrow> Turn | _ \<Rightarrow> River) \<rparr> in
             if someoneAllIn \<and> street_count (street s2) < 5 then resolveShowdown (s2\<lparr> street := River \<rparr>)
             else s2\<lparr> checked := both False False,
                      lastAggressor := None,
                      actionsThisStreet := 0,
                      lastRaiseSize := BB,
                      toAct := otherOf (dealerOf s2) \<rparr>))"

text \<open>
  \<open>handleCheck\<close>: \<open>checkMarked\<close> is its first block (the log line, the flag of the
  seat, the action counter).
\<close>

definition checkMarked :: "seat \<Rightarrow> host_state \<Rightarrow> host_state" where
  "checkMarked seat s =
     (let s1 = logAction seat Checks s
      in s1\<lparr> checked := (checked s1)(seat := True), actionsThisStreet := actionsThisStreet s1 + 1 \<rparr>)"

definition handleCheck :: "seat \<Rightarrow> host_state \<Rightarrow> host_state" where
  "handleCheck seat s =
     (let s2 = checkMarked seat s;
          otherSeat = otherOf seat;
          bothChecked = (checked s2 Top \<and> checked s2 Bottom);
          betsEqual = (bets (game s2) Top = bets (game s2) Bottom);
          enoughActions = (actionsThisStreet s2 \<ge> 2)
      in if bothChecked \<or> (betsEqual \<and> enoughActions) then advanceStreet s2
         else s2\<lparr> toAct := otherSeat \<rparr>)"

text \<open>
  \<open>handleCall\<close>: \<open>toCallOf\<close> and \<open>actualCallOf\<close> are its two constants, \<open>callChips\<close>
  is the movement of chips (the call, then the refund to the bettor when the call is
  short), and \<open>callMarked\<close> is the method up to the test for the big blind's option
  (chips, log line, action counter, the reveal when a seat is all-in).
\<close>

definition toCallOf :: "seat \<Rightarrow> game_state \<Rightarrow> rat" where
  "toCallOf seat g = roundToHundredth (bets g (otherOf seat) - bets g seat)"

definition actualCallOf :: "seat \<Rightarrow> game_state \<Rightarrow> rat" where
  "actualCallOf seat g = roundToHundredth (min (toCallOf seat g) (stacks g seat))"

definition callChips :: "seat \<Rightarrow> game_state \<Rightarrow> game_state" where
  "callChips seat g =
     (let otherSeat = otherOf seat;
          toCall = toCallOf seat g;
          actualCall = actualCallOf seat g;
          g1 = g\<lparr> bets := (bets g)(seat := roundToHundredth (bets g seat + actualCall)) \<rparr>;
          g2 = g1\<lparr> stacks := (stacks g1)(seat := roundToHundredth (stacks g1 seat - actualCall)) \<rparr>
      in if actualCall < toCall then
           (let refund = roundToHundredth (bets g2 otherSeat - bets g2 seat);
                ga = g2\<lparr> bets := (bets g2)(otherSeat := roundToHundredth (bets g2 otherSeat - refund)) \<rparr>
            in ga\<lparr> stacks := (stacks ga)(otherSeat := roundToHundredth (stacks ga otherSeat + refund)) \<rparr>)
         else g2)"

definition callMarked :: "seat \<Rightarrow> host_state \<Rightarrow> host_state" where
  "callMarked seat s =
     (let otherSeat = otherOf seat;
          actualCall = actualCallOf seat (game s);
          s1 = logAction seat (Calls actualCall) (s\<lparr> game := callChips seat (game s) \<rparr>);
          s2 = s1\<lparr> actionsThisStreet := actionsThisStreet s1 + 1 \<rparr>
      in if stacks (game s2) seat \<le> 0 \<or> stacks (game s2) otherSeat \<le> 0
         then s2\<lparr> oppRevealed := True \<rparr> else s2)"

definition handleCall :: "seat \<Rightarrow> host_state \<Rightarrow> host_state" where
  "handleCall seat s =
     (let otherSeat = otherOf seat;
          s3 = callMarked seat s
      in if street s3 = Preflop \<and> seat = dealerOf s3 \<and> lastAggressor s3 = None
         then s3\<lparr> toAct := otherSeat \<rparr>
         else advanceStreet s3)"

definition betChips :: "seat \<Rightarrow> rat \<Rightarrow> game_state \<Rightarrow> game_state" where
  "betChips seat amount g =
     (let currentBet = bets g seat;
          maxPossible = currentBet + stacks g seat;
          cappedAmount = min amount maxPossible;
          betAmount = cappedAmount - currentBet;
          g1 = g\<lparr> bets := (bets g)(seat := roundToHundredth cappedAmount) \<rparr>
      in g1\<lparr> stacks := (stacks g1)(seat := roundToHundredth (stacks g1 seat - betAmount)) \<rparr>)"

definition handleBetRaise :: "seat \<Rightarrow> rat \<Rightarrow> host_state \<Rightarrow> host_state" where
  "handleBetRaise seat amount s =
     (let otherSeat = otherOf seat;
          g = game s;
          currentBet = bets g seat;
          otherCurrentBet = bets g otherSeat;
          maxPossible = currentBet + stacks g seat;
          cappedAmount = min amount maxPossible;
          actionText = (if otherCurrentBet > currentBet then RaisesTo amount else Bets amount);
          s1 = logAction seat actionText (s\<lparr> game := betChips seat amount g \<rparr>);
          isFacing = (otherCurrentBet > currentBet)
      in s1\<lparr> lastAggressor := Some seat,
              lastRaiseSize := (if isFacing then cappedAmount - otherCurrentBet else cappedAmount),
              actionsThisStreet := actionsThisStreet s1 + 1,
              checked := both False False,
              toAct := otherSeat \<rparr>)"

definition processAction :: "seat \<Rightarrow> game_action \<Rightarrow> host_state \<Rightarrow> host_state" where
  "processAction seat action s =
     (if toAct s \<noteq> seat then s
      else if status (handResult s) \<noteq> Playing then s
      else (case action of
              FOLD \<Rightarrow> handleFold seat s
            | CHECK \<Rightarrow> handleCheck seat s
            | CALL \<Rightarrow> handleCall seat s
            | BET_RAISE_TO to \<Rightarrow> handleBetRaise seat to s))"

definition handleShowHand :: "seat \<Rightarrow> host_state \<Rightarrow> host_state" where
  "handleShowHand seat s =
     (if seat = Top \<and> \<not> canShowTop s then s
      else if seat = Bottom \<and> \<not> canShowBottom s then s
      else if seat = Top \<and> topShowed s then s
      else if seat = Bottom \<and> bottomShowed s then s
      else
        (let s1 = (if seat = Top then s\<lparr> topShowed := True \<rparr> else s\<lparr> bottomShowed := True \<rparr>);
             cs = (case cards s1 of None \<Rightarrow> None
                   | Some all \<Rightarrow> Some (if seat = Top then take 2 all else take 2 (drop 2 all)))
         in case cs of
              None \<Rightarrow> s1
            | Some hole \<Rightarrow> (if length hole = 2 then logAction seat (Shows hole) s1 else s1)))"

definition showHand :: "seat \<Rightarrow> host_state \<Rightarrow> host_state" where
  "showHand seat s = handleShowHand seat s"

subsection \<open>The target of a bet or raise in the page component\<close>

text \<open>
  The single-player engine of the page component resolves the target of a bet or raise
  in \<open>actBetRaiseTo\<close> before it moves chips. \<open>actBetRaiseTo_target\<close> is that part of
  the function, up to the test \<open>chipsToAdd <= 0\<close>: the outcome says whether the
  function hands over to \<open>actCall\<close>, returns without a change, or raises to the
  resolved target. \<open>effectiveLastRaiseSize\<close> is an argument; \<open>minTargetOf\<close> and
  \<open>maxEffectiveOf\<close> are the constants \<open>minTarget\<close> and \<open>maxEffective\<close>.
\<close>

definition clamp :: "rat \<Rightarrow> rat \<Rightarrow> rat \<Rightarrow> rat" where
  "clamp n lo hi = max lo (min hi n)"

datatype bet_outcome = AsCall | Ignored | RaiseTo rat

definition minTargetOf :: "seat \<Rightarrow> game_state \<Rightarrow> rat \<Rightarrow> rat" where
  "minTargetOf seat g effectiveLastRaiseSize =
     (let other = otherOf seat;
          isFacing = (bets g other > bets g seat)
      in if isFacing then roundToHundredth (bets g other + effectiveLastRaiseSize) else BB)"

definition maxEffectiveOf :: "seat \<Rightarrow> game_state \<Rightarrow> rat" where
  "maxEffectiveOf seat g =
     (let other = otherOf seat;
          maxPossible = roundToHundredth (bets g seat + stacks g seat)
      in roundToHundredth (min maxPossible (bets g other + stacks g other)))"

definition actBetRaiseTo_target :: "seat \<Rightarrow> game_state \<Rightarrow> rat \<Rightarrow> rat \<Rightarrow> bet_outcome" where
  "actBetRaiseTo_target seat g effectiveLastRaiseSize targetTotalBet =
     (let other = otherOf seat;
          mySeatBet = bets g seat;
          otherSeatBet = bets g other;
          isFacing = (otherSeatBet > mySeatBet);
          minTarget = minTargetOf seat g effectiveLastRaiseSize;
          maxEffective = maxEffectiveOf seat g;
          canMeetMinRaise = (maxEffective \<ge> minTarget);
          isJustCalling = (isFacing \<and> roundToHundredth maxEffective = roundToHundredth otherSeatBet)
      in if isJustCalling then AsCall
         else
           (let target = (if \<not> canMeetMinRaise then maxEffective
                          else roundToHundredth (clamp targetTotalBet minTarget maxEffective))
            in if isFacing \<and> roundToHundredth target = roundToHundredth otherSeatBet then AsCall
               else (let chipsToAdd = roundToHundredth (target - mySeatBet)
                     in if chipsToAdd \<le> 0 then Ignored else RaiseTo target)))"

subsection \<open>The events of the host\<close>

text \<open>
  The page component drives the host with three kinds of events: an action of a seat
  (\<open>processAction\<close>), a request to show a hand (\<open>showHand\<close>), and the timer that
  starts the next hand. \<open>autoNextHand\<close> is the effect that arms the timer together
  with the callback of the timer: the effect returns unless the hand has ended and the
  match is not over, and the callback calls \<open>startHand\<close> only when both stacks are
  positive. \<open>busted\<close> is the test of both for a stack at or below zero.
\<close>

datatype host_event = Action seat game_action | ShowHand seat | NextHand "card list"

definition autoNextHand :: "card list \<Rightarrow> host_state \<Rightarrow> host_state" where
  "autoNextHand deck s =
     (if status (handResult s) \<noteq> Ended then s
      else if gameOver s then s
      else if stacks (game s) Top > 0 \<and> stacks (game s) Bottom > 0 then startHand deck s
      else s)"

fun hostStep :: "host_event \<Rightarrow> host_state \<Rightarrow> host_state" where
  "hostStep (Action seat a) s = processAction seat a s"
| "hostStep (ShowHand seat) s = showHand seat s"
| "hostStep (NextHand deck) s = autoNextHand deck s"

definition runEvents :: "host_event list \<Rightarrow> host_state \<Rightarrow> host_state" where
  "runEvents es s = foldl (\<lambda>st e. hostStep e st) s es"

definition busted :: "host_state \<Rightarrow> bool" where
  "busted s = (stacks (game s) Top \<le> 0 \<or> stacks (game s) Bottom \<le> 0)"

subsection \<open>Chip amounts in hundredths\<close>

text \<open>
  The smallest currency unit is a hundredth of a big blind. \<open>hundredths x\<close> says that
  \<open>x\<close> is a whole number of hundredths; \<open>chipTotal\<close> is the left-hand side of the
  conservation equation and \<open>startTotal\<close> its right-hand side. \<open>nominalBlind\<close> is
  the blind a seat owes in \<open>postBlinds\<close>: the small blind for the dealer, the big blind
  for the other seat.
\<close>

definition hundredths :: "rat \<Rightarrow> bool" where
  "hundredths x = (of_int \<lfloor>x * 100\<rfloor> = x * 100)"

definition chipTotal :: "game_state \<Rightarrow> rat" where
  "chipTotal g = stacks g Top + stacks g Bottom + bets g Top + bets g Bottom + pot g"

definition startTotal :: "host_state \<Rightarrow> rat" where
  "startTotal s = handStartStacks s Top + handStartStacks s Bottom"

definition nominalBlind :: "host_state \<Rightarrow> seat \<Rightarrow> rat" where
  "nominalBlind s seat = (if seat = dealerOf s then SB else BB)"

subsection \<open>Example hands\<close>

text \<open>
  Concrete states on which the theorems below are instantiated: a deal of nine cards, the
  first hand of a match with the top seat as dealer, and a state in which the dealer
  holds less than the small blind.
\<close>

definition mkCard :: "card_rank \<Rightarrow> card_suit \<Rightarrow> card" where
  "mkCard r s = \<lparr> rank = r, suit = s \<rparr>"

definition exampleDeck :: "card list" where
  "exampleDeck =
     [mkCard RA Spades, mkCard RK Spades, mkCard R2 Hearts, mkCard R7 Clubs,
      mkCard R3 Diamonds, mkCard R8 Hearts, mkCard R9 Clubs, mkCard RJ Diamonds, mkCard R4 Spades]"

definition firstHand :: host_state where
  "firstHand = startHand exampleDeck (createInitialState 0)"


definition bottomWinsDeck :: "card list" where
  "bottomWinsDeck =
     [mkCard R2 Hearts, mkCard R7 Clubs, mkCard RA Spades, mkCard RK Spades,
      mkCard R3 Diamonds, mkCard R8 Hearts, mkCard R9 Clubs, mkCard RJ Diamonds, mkCard R4 Spades]"

definition tieDeck :: "card list" where
  "tieDeck =
     [mkCard R2 Hearts, mkCard R3 Diamonds, mkCard R2 Diamonds, mkCard R3 Hearts,
      mkCard RA Spades, mkCard RK Spades, mkCard RQ Diamonds, mkCard RJ Clubs, mkCard R9 Hearts]"

text \<open>A list of actions, each with the seat that sends it, applied from left to right.\<close>

definition runActions :: "(seat \<times> game_action) list \<Rightarrow> host_state \<Rightarrow> host_state" where
  "runActions acts s = foldl (\<lambda>st (seat, a). processAction seat a st) s acts"

text \<open>
  The first hand checked down to the river: the dealer completes, the big blind checks,
  and both check the flop and the turn; on the river the non-dealer has checked and the
  dealer is to act.
\<close>

definition checkedToRiver :: "card list \<Rightarrow> host_state" where
  "checkedToRiver deck =
     runActions
       [(Top, CALL), (Bottom, CHECK), (Bottom, CHECK), (Top, CHECK),
        (Bottom, CHECK), (Top, CHECK), (Bottom, CHECK)]
       (startHand deck (createInitialState 0))"

text \<open>
  The river of a hand checked down from stacks of 50, as the controller of
  \<open>src/app/multiplayerHost.ts\<close> reaches it: the blinds are in the pot, both seats have
  checked, and the bottom seat holds the better hand.
\<close>

definition placeholderRiver :: host_state where
  "placeholderRiver =
     (createInitialState 0)
       \<lparr> game := \<lparr> stacks = both 49 49, bets = both 0 0, pot = 2 \<rparr>,
         street := River,
         cards := Some bottomWinsDeck,
         blindsPosted := True,
         actionsThisStreet := 2,
         checked := both True True,
         handStartStacks := both 50 50 \<rparr>"


text \<open>A first hand in which the big blind is the whole stack of the non-dealer.\<close>

definition bigBlindAllIn :: host_state where
  "bigBlindAllIn =
     startHand exampleDeck
       ((createInitialState 0)\<lparr> game := \<lparr> stacks = both 25 1, bets = both 0 0, pot = 0 \<rparr> \<rparr>)"

subsection \<open>The conservation invariant\<close>

text \<open>
  \<open>conserved\<close> is the conservation equation of a state; \<open>gridGame\<close> says that all
  five chip amounts are whole hundredths, and \<open>gridAction\<close> that the target of a bet
  or raise is. \<open>handInv\<close> is the invariant of a hand: the equation holds, and while the
  hand is played the amounts are whole hundredths.
\<close>

definition gridGame :: "game_state \<Rightarrow> bool" where
  "gridGame g = (hundredths (stacks g Top) \<and> hundredths (stacks g Bottom) \<and>
                 hundredths (bets g Top) \<and> hundredths (bets g Bottom) \<and> hundredths (pot g))"

definition gridAction :: "game_action \<Rightarrow> bool" where
  "gridAction a = (case a of BET_RAISE_TO to \<Rightarrow> hundredths to | _ \<Rightarrow> True)"

definition conserved :: "host_state \<Rightarrow> bool" where
  "conserved s = (chipTotal (game s) = startTotal s)"

definition handInv :: "host_state \<Rightarrow> bool" where
  "handInv s = (conserved s \<and> (status (handResult s) = Playing \<longrightarrow> gridGame (game s)))"

text \<open>
  \<open>facingFour\<close>: the dealer has raised to 2 and the big blind to 4, so the dealer faces
  a bet of 4 with a last raise of 2. \<open>shortFacingBet\<close>: on the flop the non-dealer holds
  3 and faces a bet of 10. \<open>shortLimp\<close>: a first hand in which the dealer holds 0.8.
\<close>

definition facingFour :: host_state where
  "facingFour = runActions [(Top, BET_RAISE_TO 2), (Bottom, BET_RAISE_TO 4)] firstHand"

definition shortFacingBet :: host_state where
  "shortFacingBet =
     runActions [(Top, CALL), (Bottom, CHECK), (Bottom, CHECK), (Top, BET_RAISE_TO 10)]
       (startHand exampleDeck
          ((createInitialState 0)\<lparr> game := \<lparr> stacks = both 25 4, bets = both 0 0, pot = 0 \<rparr> \<rparr>))"



definition shortLimp :: host_state where
  "shortLimp =
     startHand exampleDeck
       ((createInitialState 0)\<lparr> game := \<lparr> stacks = both (4 / 5) 25, bets = both 0 0, pot = 0 \<rparr> \<rparr>)"

text \<open>\<open>bustedMatch\<close>: the hand of \<open>bigBlindAllIn\<close> after the showdown that the non-dealer loses.\<close>

definition bustedMatch :: host_state where
  "bustedMatch = runActions [(Top, CALL), (Bottom, CHECK)] bigBlindAllIn"

subsection \<open>Notions for the properties of the evaluator\<close>

text \<open>
  The ranks of a hand, the number of cards of a rank, and the ranks of the cards of a suit.
\<close>

definition valsOf :: "card list \<Rightarrow> int list" where
  "valsOf X = map card_value X"

definition cnt :: "card list \<Rightarrow> int \<Rightarrow> nat" where
  "cnt X v = length (filter (\<lambda>c. card_value c = v) X)"

definition suitValsOf :: "card list \<Rightarrow> card_suit \<Rightarrow> int list" where
  "suitValsOf X s = map card_value (filter (\<lambda>c. suit c = s) X)"

text \<open>
  A straight with high card \<open>h\<close> in a set of ranks; for the wheel the ace also counts
  as 1. \<open>straightHighOf\<close> is the high card of the best straight, and \<open>straightVals\<close> lists
  the five ranks of the straight with high card \<open>h\<close>.
\<close>

definition hasStraight :: "int set \<Rightarrow> int \<Rightarrow> bool" where
  "hasStraight V h = ({h - 4 .. h} \<subseteq> V)"

definition wheelSet :: "int set \<Rightarrow> int set" where
  "wheelSet V = (if 14 \<in> V then insert 1 V else V)"

definition straightHighOf :: "int set \<Rightarrow> int option" where
  "straightHighOf V =
     (if \<exists>h. hasStraight (wheelSet V) h then Some (Max {h. hasStraight (wheelSet V) h}) else None)"

definition straightVals :: "int \<Rightarrow> int list" where
  "straightVals h = (if h = 5 then [14, 5, 4, 3, 2] else [h, h - 1, h - 2, h - 3, h - 4])"

definition straightAt :: "int list \<Rightarrow> nat \<Rightarrow> bool" where
  "straightAt l i = (i + 4 < length l \<and> l ! (i + 4) = l ! i - 4)"

text \<open>The intermediate values of \<open>evaluate7\<close>, by name, and lookups in its two maps.\<close>

definition groupsOf :: "card list \<Rightarrow> (int \<times> nat) list" where
  "groupsOf X = js_sort group_cmp (card_counts X)"

definition uniqueDescOf :: "card list \<Rightarrow> int list" where
  "uniqueDescOf X = js_sort desc (uniq (js_sort desc (map card_value X)))"

fun cget :: "(int \<times> nat) list \<Rightarrow> int \<Rightarrow> nat" where
  "cget [] v = 0"
| "cget ((k, c) # m) v = (if k = v then c else cget m v)"

fun sget :: "(card_suit \<times> int list) list \<Rightarrow> card_suit \<Rightarrow> int list" where
  "sget [] s = []"
| "sget ((k, arr) # m) s = (if k = s then arr else sget m s)"

definition gle :: "int \<times> nat \<Rightarrow> int \<times> nat \<Rightarrow> bool" where
  "gle a b = (snd b < snd a \<or> (snd b = snd a \<and> fst b \<le> fst a))"

definition v0Of :: "card list \<Rightarrow> int" where
  "v0Of X = fst (hd (groupsOf X))"

definition c0Of :: "card list \<Rightarrow> nat" where
  "c0Of X = snd (hd (groupsOf X))"

definition pairCandOf :: "card list \<Rightarrow> (int \<times> nat) option" where
  "pairCandOf X = List.find (\<lambda>g. fst g \<noteq> v0Of X \<and> snd g \<ge> 2) (groupsOf X)"

definition pairsOf :: "card list \<Rightarrow> int list" where
  "pairsOf X = js_sort desc (map fst (filter (\<lambda>g. snd g = 2) (groupsOf X)))"

definition flushSuitOf :: "card list \<Rightarrow> card_suit option" where
  "flushSuitOf X = fst (flush_scan (card_suits X))"

definition flushValsOf :: "card list \<Rightarrow> int list" where
  "flushValsOf X = snd (flush_scan (card_suits X))"

definition sfOf :: "card list \<Rightarrow> int option" where
  "sfOf X = (if flushSuitOf X \<noteq> None then getStraightHigh (js_sort desc (uniq (flushValsOf X))) else None)"

definition shOf :: "card list \<Rightarrow> int option" where
  "shOf X = getStraightHigh (uniqueDescOf X)"

text \<open>
  \<open>pat X sc\<close>: five of the cards \<open>X\<close> make a hand of the category and with the
  tie-breakers of the score \<open>sc\<close>: a straight flush with its high card, four of a kind
  with a kicker, a full house, five ranks of one suit, a straight, three of a kind with two
  kickers, two pairs with a kicker, a pair with three kickers, five different ranks.
\<close>

inductive pat :: "card list \<Rightarrow> int list \<Rightarrow> bool" for X where
  pat8: "hasStraight (wheelSet (set (suitValsOf X s))) h \<Longrightarrow> pat X [8, h]"
| pat7: "4 \<le> cnt X q \<Longrightarrow> k \<in> set (valsOf X) \<Longrightarrow> k \<noteq> q \<Longrightarrow> pat X [7, q, k]"
| pat6: "3 \<le> cnt X t \<Longrightarrow> 2 \<le> cnt X p \<Longrightarrow> t \<noteq> p \<Longrightarrow> pat X [6, t, p]"
| pat5: "sorted_wrt (>) ks \<Longrightarrow> length ks = 5 \<Longrightarrow> set ks \<subseteq> set (suitValsOf X s) \<Longrightarrow> pat X (5 # ks)"
| pat4: "hasStraight (wheelSet (set (valsOf X))) h \<Longrightarrow> pat X [4, h]"
| pat3: "3 \<le> cnt X t \<Longrightarrow> sorted_wrt (>) ks \<Longrightarrow> length ks = 2 \<Longrightarrow> set ks \<subseteq> set (valsOf X) - {t} \<Longrightarrow>
         pat X (3 # t # ks)"
| pat2: "2 \<le> cnt X p1 \<Longrightarrow> 2 \<le> cnt X p2 \<Longrightarrow> p2 < p1 \<Longrightarrow> k \<in> set (valsOf X) \<Longrightarrow> k \<noteq> p1 \<Longrightarrow> k \<noteq> p2 \<Longrightarrow>
         pat X [2, p1, p2, k]"
| pat1: "2 \<le> cnt X p \<Longrightarrow> sorted_wrt (>) ks \<Longrightarrow> length ks = 3 \<Longrightarrow> set ks \<subseteq> set (valsOf X) - {p} \<Longrightarrow>
         pat X (1 # p # ks)"
| pat0: "sorted_wrt (>) ks \<Longrightarrow> length ks = 5 \<Longrightarrow> set ks \<subseteq> set (valsOf X) \<Longrightarrow> pat X (0 # ks)"

text \<open>The first entry of a score, 0 when there is none, as \<open>compareScore\<close> reads it.\<close>

definition hd0 :: "int list \<Rightarrow> int" where
  "hd0 l = (case l of [] \<Rightarrow> 0 | x # _ \<Rightarrow> x)"

text \<open>
  Example hands: a wheel, a six-high straight, three kings, a wheel beside five spades,
  and two pairs.
\<close>

definition wheelHand :: "card list" where
  "wheelHand =
     [mkCard RA Spades, mkCard R2 Hearts, mkCard R3 Diamonds, mkCard R4 Clubs,
      mkCard R5 Spades, mkCard R9 Hearts, mkCard RK Diamonds]"

definition sixHighHand :: "card list" where
  "sixHighHand =
     [mkCard R2 Hearts, mkCard R3 Diamonds, mkCard R4 Clubs, mkCard R5 Spades,
      mkCard R6 Hearts, mkCard R9 Clubs, mkCard RK Diamonds]"

definition tripsHand :: "card list" where
  "tripsHand =
     [mkCard RK Hearts, mkCard RK Diamonds, mkCard RK Clubs, mkCard R2 Spades,
      mkCard R7 Hearts, mkCard R9 Clubs, mkCard RJ Diamonds]"

definition wheelFlushHand :: "card list" where
  "wheelFlushHand =
     [mkCard RA Spades, mkCard R2 Spades, mkCard R3 Spades, mkCard R4 Spades,
      mkCard R5 Hearts, mkCard R9 Spades, mkCard RK Diamonds]"

definition sevenCards :: "card list" where
  "sevenCards =
     [mkCard RA Spades, mkCard RK Spades, mkCard R8 Hearts, mkCard R8 Clubs,
      mkCard RJ Diamonds, mkCard R4 Spades, mkCard RJ Hearts]"

section \<open>Properties\<close>

subsection \<open>Rounding to the hundredth\<close>

lemma hundredths_iff: "hundredths x \<longleftrightarrow> (\<exists>k::int. x = of_int k / 100)"
proof
  assume "hundredths x"
  then have e: "of_int \<lfloor>x * 100\<rfloor> = x * 100" unfolding hundredths_def .
  have "x = x * 100 / 100" by simp
  then have "x = of_int \<lfloor>x * 100\<rfloor> / 100" by (simp only: e)
  then show "\<exists>k::int. x = of_int k / 100" ..
next
  assume "\<exists>k::int. x = of_int k / 100"
  then obtain k :: int where "x = of_int k / 100" ..
  then have "x * 100 = of_int k" by simp
  then have "of_int \<lfloor>x * 100\<rfloor> = x * 100" by (simp only: floor_of_int)
  then show "hundredths x" unfolding hundredths_def .
qed

lemma round_of_int: "roundToHundredth (of_int k / 100) = of_int k / 100"
proof -
  have "\<lfloor>(of_int k :: rat) + 1 / 2\<rfloor> = k" by linarith
  then show ?thesis by (simp add: roundToHundredth_def)
qed

lemma round_hundredths: "hundredths x \<Longrightarrow> roundToHundredth x = x"
proof -
  assume "hundredths x"
  then obtain k :: int where "x = of_int k / 100" unfolding hundredths_iff ..
  then show ?thesis by (simp only: round_of_int)
qed

lemma hundredths_round [simp]: "hundredths (roundToHundredth x)"
  unfolding hundredths_iff roundToHundredth_def by blast



lemma hundredths_0 [simp]: "hundredths 0"
  by (simp add: hundredths_def)

lemma round_zero [simp]: "roundToHundredth 0 = 0"
  by (simp add: round_hundredths)

lemma hundredths_add: "hundredths x \<Longrightarrow> hundredths y \<Longrightarrow> hundredths (x + y)"
proof -
  assume "hundredths x" "hundredths y"
  then obtain k l :: int where "x = of_int k / 100" "y = of_int l / 100"
    by (auto simp add: hundredths_iff)
  then have "x + y = of_int (k + l) / 100" by (simp add: add_divide_distrib)
  then show ?thesis unfolding hundredths_iff by blast
qed

lemma hundredths_diff: "hundredths x \<Longrightarrow> hundredths y \<Longrightarrow> hundredths (x - y)"
proof -
  assume "hundredths x" "hundredths y"
  then obtain k l :: int where "x = of_int k / 100" "y = of_int l / 100"
    by (auto simp add: hundredths_iff)
  then have "x - y = of_int (k - l) / 100" by (simp add: diff_divide_distrib)
  then show ?thesis unfolding hundredths_iff by blast
qed

lemma hundredths_min: "hundredths x \<Longrightarrow> hundredths y \<Longrightarrow> hundredths (min x y)"
  by (simp add: min_def)

lemma hundredths_consts [simp]: "hundredths SB" "hundredths BB"
  unfolding hundredths_iff SB_def BB_def
  by (rule exI [of _ 50], simp) (rule exI [of _ 100], simp)

subsection \<open>What each method leaves unchanged\<close>

lemma otherOf_neq [simp]: "otherOf x \<noteq> x" "x \<noteq> otherOf x"
  by (simp_all add: otherOf_def)

lemma otherOf_simps [simp]: "otherOf Top = Bottom" "otherOf Bottom = Top"
  by (simp_all add: otherOf_def)

lemma logAction_fields [simp]:
  "game (logAction seat t s) = game s"
  "street (logAction seat t s) = street s"
  "toAct (logAction seat t s) = toAct s"
  "cards (logAction seat t s) = cards s"
  "handId (logAction seat t s) = handId s"
  "dealerOffset (logAction seat t s) = dealerOffset s"
  "handResult (logAction seat t s) = handResult s"
  "gameOver (logAction seat t s) = gameOver s"
  "lastRaiseSize (logAction seat t s) = lastRaiseSize s"
  "lastAggressor (logAction seat t s) = lastAggressor s"
  "actionsThisStreet (logAction seat t s) = actionsThisStreet s"
  "checked (logAction seat t s) = checked s"
  "handStartStacks (logAction seat t s) = handStartStacks s"
  "length (actionLog (logAction seat t s)) = Suc (length (actionLog s))"
  by (simp_all add: logAction_def)

lemma dealerOf_logAction [simp]: "dealerOf (logAction seat t s) = dealerOf s"
  by (simp add: dealerOf_def)

lemma logShow_log: "length (actionLog s) \<le> length (actionLog (logShow seat s))"
  by (simp add: logShow_def Let_def)

lemma showdownLog_log: "length (actionLog s) \<le> length (actionLog (showdownLog f b s))"
  using logShow_log [of s f] logShow_log [of "logShow f s" "otherOf f"]
  by (simp add: showdownLog_def Let_def)

lemma showdownFlags_log [simp]: "actionLog (showdownFlags w f b s) = actionLog s"
  by (simp add: showdownFlags_def Let_def)

lemma awardPot_log: "length (actionLog s) < length (actionLog (awardPot w s))"
  by (cases w) (simp_all add: awardPot_def Let_def)

lemma checkGameOver_log [simp]: "actionLog (checkGameOver s) = actionLog s"
  by (simp add: checkGameOver_def)

lemma resolveShowdown_log: "length (actionLog s) < length (actionLog (resolveShowdown s))"
proof -
  let ?w = "showdownWinner s"
  let ?s1 = "s\<lparr> handResult := showdownResult ?w \<rparr>"
  let ?s4 = "showdownFlags ?w (firstToShowOf ?s1) (secondShowsOf ?w ?s1) ?s1"
  let ?s6 = "showdownLog (firstToShowOf ?s1) (secondShowsOf ?w ?s1) ?s4"
  have "length (actionLog s) = length (actionLog ?s4)" by simp
  also have "\<dots> \<le> length (actionLog ?s6)" by (rule showdownLog_log)
  also have "\<dots> < length (actionLog (awardPot ?w ?s6))" by (rule awardPot_log)
  finally show ?thesis by (simp add: resolveShowdown_def Let_def)
qed

lemma advanceStreet_log: "length (actionLog s) \<le> length (actionLog (advanceStreet s))"
proof -
  have r: "\<And>t. actionLog t = actionLog s \<Longrightarrow> length (actionLog s) \<le> length (actionLog (resolveShowdown t))"
    using resolveShowdown_log less_imp_le by metis
  show ?thesis
    by (cases "street s") (auto simp add: advanceStreet_def Let_def intro!: r)
qed

lemma checkMarked_log: "length (actionLog s) < length (actionLog (checkMarked seat s))"
  by (simp add: checkMarked_def Let_def)

lemma handleCheck_log: "length (actionLog s) < length (actionLog (handleCheck seat s))"
proof -
  have "length (actionLog s) < length (actionLog (checkMarked seat s))" by (rule checkMarked_log)
  moreover have "length (actionLog (checkMarked seat s)) \<le> length (actionLog (advanceStreet (checkMarked seat s)))"
    by (rule advanceStreet_log)
  ultimately show ?thesis by (auto simp add: handleCheck_def Let_def)
qed

lemma handleFold_log: "length (actionLog s) < length (actionLog (handleFold seat s))"
  by (simp add: handleFold_def Let_def)

lemma handleBetRaise_log: "length (actionLog s) < length (actionLog (handleBetRaise seat amount s))"
  by (simp add: handleBetRaise_def Let_def)

lemma callMarked_log: "length (actionLog s) < length (actionLog (callMarked seat s))"
  by (simp add: callMarked_def Let_def)

lemma handleCall_log: "length (actionLog s) < length (actionLog (handleCall seat s))"
proof -
  have "length (actionLog s) < length (actionLog (callMarked seat s))" by (rule callMarked_log)
  moreover have "length (actionLog (callMarked seat s)) \<le> length (actionLog (advanceStreet (callMarked seat s)))"
    by (rule advanceStreet_log)
  ultimately show ?thesis by (auto simp add: handleCall_def Let_def)
qed

lemma showdownFlags_fields [simp]:
  "game (showdownFlags w f b s) = game s"
  "handResult (showdownFlags w f b s) = handResult s"
  "street (showdownFlags w f b s) = street s"
  "cards (showdownFlags w f b s) = cards s"
  "gameOver (showdownFlags w f b s) = gameOver s"
  "toAct (showdownFlags w f b s) = toAct s"
  "handStartStacks (showdownFlags w f b s) = handStartStacks s"
  "handId (showdownFlags w f b s) = handId s"
  by (simp_all add: showdownFlags_def Let_def)

lemma logShow_fields [simp]:
  "game (logShow seat s) = game s"
  "handResult (logShow seat s) = handResult s"
  "street (logShow seat s) = street s"
  "cards (logShow seat s) = cards s"
  "gameOver (logShow seat s) = gameOver s"
  "toAct (logShow seat s) = toAct s"
  "handStartStacks (logShow seat s) = handStartStacks s"
  "handId (logShow seat s) = handId s"
  by (simp_all add: logShow_def Let_def)

lemma showdownLog_fields [simp]:
  "game (showdownLog f b s) = game s"
  "handResult (showdownLog f b s) = handResult s"
  "street (showdownLog f b s) = street s"
  "cards (showdownLog f b s) = cards s"
  "gameOver (showdownLog f b s) = gameOver s"
  "toAct (showdownLog f b s) = toAct s"
  "handStartStacks (showdownLog f b s) = handStartStacks s"
  "handId (showdownLog f b s) = handId s"
  by (simp_all add: showdownLog_def Let_def)

lemma awardPot_fields [simp]:
  "handResult (awardPot w s) = handResult s"
  "street (awardPot w s) = street s"
  "cards (awardPot w s) = cards s"
  "gameOver (awardPot w s) = gameOver s"
  "toAct (awardPot w s) = toAct s"
  "handStartStacks (awardPot w s) = handStartStacks s"
  "handId (awardPot w s) = handId s"
  "pot (game (awardPot w s)) = 0"
  "bets (game (awardPot w s)) = both 0 0"
  by (cases w; simp add: awardPot_def Let_def)+

lemma awardPot_stacks:
  "stacks (game (awardPot (Seat x) s)) x = stacks (game s) x + (pot (game s) + bets (game s) Top + bets (game s) Bottom)"
  "stacks (game (awardPot (Seat x) s)) (otherOf x) = stacks (game s) (otherOf x)"
  "stacks (game (awardPot Tie s)) y = stacks (game s) y + (pot (game s) + bets (game s) Top + bets (game s) Bottom) / 2"
  by (cases y; simp add: awardPot_def Let_def)+

lemma checkGameOver_fields [simp]:
  "game (checkGameOver s) = game s"
  "handResult (checkGameOver s) = handResult s"
  "street (checkGameOver s) = street s"
  "cards (checkGameOver s) = cards s"
  "toAct (checkGameOver s) = toAct s"
  "handStartStacks (checkGameOver s) = handStartStacks s"
  "handId (checkGameOver s) = handId s"
  "gameOver (checkGameOver s) = (gameOver s \<or> stacks (game s) Top \<le> 0 \<or> stacks (game s) Bottom \<le> 0)"
  by (auto simp add: checkGameOver_def)

lemma resolveShowdown_fields [simp]:
  "handResult (resolveShowdown s) = showdownResult (showdownWinner s)"
  "street (resolveShowdown s) = street s"
  "cards (resolveShowdown s) = cards s"
  "toAct (resolveShowdown s) = toAct s"
  "handStartStacks (resolveShowdown s) = handStartStacks s"
  "handId (resolveShowdown s) = handId s"
  "pot (game (resolveShowdown s)) = 0"
  "bets (game (resolveShowdown s)) = both 0 0"
  by (simp_all add: resolveShowdown_def Let_def)

lemma resolveShowdown_stacks:
  "showdownWinner s = Seat x \<Longrightarrow> stacks (game (resolveShowdown s)) x = stacks (game s) x + (pot (game s) + bets (game s) Top + bets (game s) Bottom)"
  "showdownWinner s = Seat x \<Longrightarrow> stacks (game (resolveShowdown s)) (otherOf x) = stacks (game s) (otherOf x)"
  "showdownWinner s = Tie \<Longrightarrow> stacks (game (resolveShowdown s)) y = stacks (game s) y + (pot (game s) + bets (game s) Top + bets (game s) Bottom) / 2"
  by (simp_all add: resolveShowdown_def Let_def awardPot_stacks)

lemma resolveShowdown_gameOver:
  "gameOver (resolveShowdown s) = (gameOver s \<or> stacks (game (resolveShowdown s)) Top \<le> 0 \<or> stacks (game (resolveShowdown s)) Bottom \<le> 0)"
  by (simp add: resolveShowdown_def Let_def)

lemma showdownResult_simps [simp]:
  "status (showdownResult w) = Ended"
  "winner (showdownResult w) = Some w"
  "reason (showdownResult w) = Some ByShowdown"
  by (simp_all add: showdownResult_def)

lemma showdownWinner_cong:
  "cards t = cards s \<Longrightarrow> street t = street s \<Longrightarrow> showdownWinner t = showdownWinner s"
  by (simp add: showdownWinner_def showdownCmp_def boardOf_def holeOf_def allCards_def)

text \<open>
  \<open>advanceStreet\<close> either settles the hand by showdown, on a state whose street is the
  river, or opens the next street and leaves the hand result alone.
\<close>

lemma advanceStreet_cases:
  "(\<exists>t. advanceStreet s = resolveShowdown t \<and> street t = River \<and> cards t = cards s \<and>
        game t = pullBets (game s) \<and> handStartStacks t = handStartStacks s \<and> gameOver t = gameOver s \<and>
        (street s = River \<or> stacks (game s) Top \<le> 0 \<or> stacks (game s) Bottom \<le> 0)) \<or>
   (handResult (advanceStreet s) = handResult s \<and> game (advanceStreet s) = pullBets (game s) \<and>
    cards (advanceStreet s) = cards s \<and> handStartStacks (advanceStreet s) = handStartStacks s \<and>
    gameOver (advanceStreet s) = gameOver s \<and>
    toAct (advanceStreet s) = otherOf (dealerOf s) \<and>
    street (advanceStreet s) = (case street s of Preflop \<Rightarrow> Flop | Flop \<Rightarrow> Turn | _ \<Rightarrow> River) \<and>
    street s \<noteq> River \<and>
    (street s = Turn \<or> (0 < stacks (game s) Top \<and> 0 < stacks (game s) Bottom)))"
proof (cases "street s")
  case River
  then have "advanceStreet s = resolveShowdown (s\<lparr> game := pullBets (game s) \<rparr>)"
    by (simp add: advanceStreet_def Let_def)
  with River show ?thesis
    by (intro disjI1 exI [of _ "s\<lparr> game := pullBets (game s) \<rparr>"]) simp
next
  case Turn
  then show ?thesis
    by (intro disjI2) (simp add: advanceStreet_def Let_def dealerOf_def pullBets_def)
next
  case Preflop
  show ?thesis
  proof (cases "stacks (game s) Top \<le> 0 \<or> stacks (game s) Bottom \<le> 0")
    case True
    with Preflop have "advanceStreet s = resolveShowdown (s\<lparr> game := pullBets (game s), street := River \<rparr>)"
      by (auto simp add: advanceStreet_def Let_def pullBets_def)
    with True show ?thesis
      by (intro disjI1 exI [of _ "s\<lparr> game := pullBets (game s), street := River \<rparr>"]) simp
  next
    case False
    with Preflop show ?thesis
      by (intro disjI2) (auto simp add: advanceStreet_def Let_def dealerOf_def pullBets_def)
  qed
next
  case Flop
  show ?thesis
  proof (cases "stacks (game s) Top \<le> 0 \<or> stacks (game s) Bottom \<le> 0")
    case True
    with Flop have "advanceStreet s = resolveShowdown (s\<lparr> game := pullBets (game s), street := River \<rparr>)"
      by (auto simp add: advanceStreet_def Let_def pullBets_def)
    with True show ?thesis
      by (intro disjI1 exI [of _ "s\<lparr> game := pullBets (game s), street := River \<rparr>"]) simp
  next
    case False
    with Flop show ?thesis
      by (intro disjI2) (auto simp add: advanceStreet_def Let_def dealerOf_def pullBets_def)
  qed
qed

lemma handleFold_fields [simp]:
  "handResult (handleFold seat s) =
     \<lparr> status = Ended, winner = Some (Seat (otherOf seat)), reason = Some ByFold,
       message = (if otherOf seat = Bottom then ''You'' else ''Opponent'') @ '' wins'' \<rparr>"
  "cards (handleFold seat s) = cards s"
  "street (handleFold seat s) = street s"
  "handStartStacks (handleFold seat s) = handStartStacks s"
  "handId (handleFold seat s) = handId s"
  "pot (game (handleFold seat s)) = 0"
  "bets (game (handleFold seat s)) = both 0 0"
  "stacks (game (handleFold seat s)) (otherOf seat) =
     stacks (game s) (otherOf seat) + (pot (game s) + bets (game s) Top + bets (game s) Bottom)"
  "stacks (game (handleFold seat s)) seat = stacks (game s) seat"
  by (simp_all add: handleFold_def Let_def)

lemma handleFold_gameOver:
  "gameOver (handleFold seat s) =
     (gameOver s \<or> stacks (game (handleFold seat s)) Top \<le> 0 \<or> stacks (game (handleFold seat s)) Bottom \<le> 0)"
  by (simp add: handleFold_def Let_def)

lemma handleBetRaise_fields [simp]:
  "handResult (handleBetRaise seat amount s) = handResult s"
  "cards (handleBetRaise seat amount s) = cards s"
  "street (handleBetRaise seat amount s) = street s"
  "handStartStacks (handleBetRaise seat amount s) = handStartStacks s"
  "handId (handleBetRaise seat amount s) = handId s"
  "gameOver (handleBetRaise seat amount s) = gameOver s"
  "game (handleBetRaise seat amount s) = betChips seat amount (game s)"
  "toAct (handleBetRaise seat amount s) = otherOf seat"
  "lastAggressor (handleBetRaise seat amount s) = Some seat"
  by (simp_all add: handleBetRaise_def Let_def)

lemma checkMarked_fields [simp]:
  "handResult (checkMarked seat s) = handResult s"
  "cards (checkMarked seat s) = cards s"
  "street (checkMarked seat s) = street s"
  "handStartStacks (checkMarked seat s) = handStartStacks s"
  "handId (checkMarked seat s) = handId s"
  "gameOver (checkMarked seat s) = gameOver s"
  "game (checkMarked seat s) = game s"
  "toAct (checkMarked seat s) = toAct s"
  "dealerOf (checkMarked seat s) = dealerOf s"
  "checked (checkMarked seat s) = (checked s)(seat := True)"
  "actionsThisStreet (checkMarked seat s) = actionsThisStreet s + 1"
  by (simp_all add: checkMarked_def Let_def dealerOf_def)

lemma handleCheck_eq:
  "handleCheck seat s =
     (if (checked (checkMarked seat s) Top \<and> checked (checkMarked seat s) Bottom) \<or>
         (bets (game s) Top = bets (game s) Bottom \<and> actionsThisStreet s + 1 \<ge> 2)
      then advanceStreet (checkMarked seat s)
      else (checkMarked seat s)\<lparr> toAct := otherOf seat \<rparr>)"
  by (simp add: handleCheck_def Let_def)

lemma callMarked_fields [simp]:
  "handResult (callMarked seat s) = handResult s"
  "cards (callMarked seat s) = cards s"
  "street (callMarked seat s) = street s"
  "handStartStacks (callMarked seat s) = handStartStacks s"
  "handId (callMarked seat s) = handId s"
  "gameOver (callMarked seat s) = gameOver s"
  "game (callMarked seat s) = callChips seat (game s)"
  "toAct (callMarked seat s) = toAct s"
  "dealerOf (callMarked seat s) = dealerOf s"
  "lastAggressor (callMarked seat s) = lastAggressor s"
  "checked (callMarked seat s) = checked s"
  "actionsThisStreet (callMarked seat s) = actionsThisStreet s + 1"
  by (simp_all add: callMarked_def Let_def dealerOf_def)

lemma handleCall_eq:
  "handleCall seat s =
     (if street s = Preflop \<and> seat = dealerOf s \<and> lastAggressor s = None
      then (callMarked seat s)\<lparr> toAct := otherOf seat \<rparr>
      else advanceStreet (callMarked seat s))"
  by (simp add: handleCall_def Let_def)

lemma processAction_showdown:
  assumes "reason (handResult s) \<noteq> Some ByShowdown"
    and "reason (handResult (processAction seat a s)) = Some ByShowdown"
  shows "\<exists>t. processAction seat a s = resolveShowdown t \<and> street t = River \<and> cards t = cards s \<and>
    game t = pullBets (case a of CALL \<Rightarrow> callChips seat (game s) | _ \<Rightarrow> game s)"
proof -
  have adv: "\<And>u. handResult u = handResult s \<Longrightarrow> cards u = cards s \<Longrightarrow>
      reason (handResult (advanceStreet u)) = Some ByShowdown \<Longrightarrow>
      \<exists>t. advanceStreet u = resolveShowdown t \<and> street t = River \<and> cards t = cards s \<and>
        game t = pullBets (game u)"
  proof -
    fix u :: host_state
    assume u: "handResult u = handResult s" "cards u = cards s"
      and r: "reason (handResult (advanceStreet u)) = Some ByShowdown"
    from advanceStreet_cases [of u] show "\<exists>t. advanceStreet u = resolveShowdown t \<and> street t = River \<and> cards t = cards s \<and>
        game t = pullBets (game u)"
    proof
      assume "\<exists>t. advanceStreet u = resolveShowdown t \<and> street t = River \<and> cards t = cards u \<and>
        game t = pullBets (game u) \<and> handStartStacks t = handStartStacks u \<and> gameOver t = gameOver u \<and>
        (street u = River \<or> stacks (game u) Top \<le> 0 \<or> stacks (game u) Bottom \<le> 0)"
      with u show ?thesis by auto
    next
      assume "handResult (advanceStreet u) = handResult u \<and> game (advanceStreet u) = pullBets (game u) \<and>
    cards (advanceStreet u) = cards u \<and> handStartStacks (advanceStreet u) = handStartStacks u \<and>
    gameOver (advanceStreet u) = gameOver u \<and>
    toAct (advanceStreet u) = otherOf (dealerOf u) \<and>
    street (advanceStreet u) = (case street u of Preflop \<Rightarrow> Flop | Flop \<Rightarrow> Turn | _ \<Rightarrow> River) \<and>
    street u \<noteq> River \<and>
    (street u = Turn \<or> (0 < stacks (game u) Top \<and> 0 < stacks (game u) Bottom))"
      with u r assms(1) show ?thesis by simp
    qed
  qed
  show ?thesis
  proof (cases "toAct s \<noteq> seat \<or> status (handResult s) \<noteq> Playing")
    case True
    with assms show ?thesis by (auto simp add: processAction_def)
  next
    case False
    then have g: "toAct s = seat" "status (handResult s) = Playing" by auto
    show ?thesis
    proof (cases a)
      case FOLD
      with g assms(2) show ?thesis by (simp add: processAction_def)
    next
      case (BET_RAISE_TO x)
      with g assms show ?thesis by (simp add: processAction_def)
    next
      case CHECK
      with g have p: "processAction seat a s = handleCheck seat s" by (simp add: processAction_def)
      show ?thesis
      proof (cases "handleCheck seat s = advanceStreet (checkMarked seat s)")
        case True
        with CHECK p assms(2) adv [of "checkMarked seat s"] show ?thesis by simp
      next
        case False
        then have "handleCheck seat s = (checkMarked seat s)\<lparr> toAct := otherOf seat \<rparr>"
          by (simp add: handleCheck_eq split: if_splits)
        with p assms show ?thesis by simp
      qed
    next
      case CALL
      with g have p: "processAction seat a s = handleCall seat s" by (simp add: processAction_def)
      show ?thesis
      proof (cases "handleCall seat s = advanceStreet (callMarked seat s)")
        case True
        with CALL p assms(2) adv [of "callMarked seat s"] show ?thesis by simp
      next
        case False
        then have "handleCall seat s = (callMarked seat s)\<lparr> toAct := otherOf seat \<rparr>"
          by (simp add: handleCall_eq split: if_splits)
        with p assms show ?thesis by simp
      qed
    qed
  qed
qed

subsection \<open>Rejected and accepted actions\<close>

text \<open>
  C7. \<open>processAction(seat, action)\<close> leaves the authoritative state as it is (nothing
  logged, no chips moved) unless \<open>toAct\<close> is the seat and the hand is being played;
  when both hold, the transition of the action is applied, and it appends to the action
  log.
\<close>

theorem processAction_rejects_or_applies:
  "(toAct s \<noteq> seat \<or> status (handResult s) \<noteq> Playing \<longrightarrow> processAction seat action s = s) \<and>
   (toAct s = seat \<and> status (handResult s) = Playing \<longrightarrow>
      processAction seat action s =
        (case action of
           FOLD \<Rightarrow> handleFold seat s
         | CHECK \<Rightarrow> handleCheck seat s
         | CALL \<Rightarrow> handleCall seat s
         | BET_RAISE_TO to \<Rightarrow> handleBetRaise seat to s) \<and>
      length (actionLog s) < length (actionLog (processAction seat action s)))"
  by (cases action)
     (auto simp add: processAction_def handleFold_log handleCheck_log handleCall_log handleBetRaise_log)

theorem processAction_rejects_or_applies_witness:
  "toAct firstHand \<noteq> Bottom \<and> processAction Bottom FOLD firstHand = firstHand \<and>
   toAct firstHand = Top \<and> status (handResult firstHand) = Playing \<and>
   processAction Top FOLD firstHand = handleFold Top firstHand \<and>
   length (actionLog firstHand) < length (actionLog (processAction Top FOLD firstHand))"
proof -
  have a: "toAct firstHand = Top" by code_simp
  have b: "status (handResult firstHand) = Playing" by code_simp
  from a have c: "toAct firstHand \<noteq> Bottom" by simp
  from processAction_rejects_or_applies [of firstHand Bottom FOLD] c
  have d: "processAction Bottom FOLD firstHand = firstHand" by blast
  from processAction_rejects_or_applies [of firstHand Top FOLD] a b
  have e: "processAction Top FOLD firstHand = handleFold Top firstHand \<and>
           length (actionLog firstHand) < length (actionLog (processAction Top FOLD firstHand))" by auto
  from a b c d e show ?thesis by blast
qed

subsection \<open>Posting the blinds\<close>

lemma postBlinds_game:
  "stacks (game (postBlinds s)) seat =
     roundToHundredth (stacks (game s) seat - min (nominalBlind s seat) (stacks (game s) seat))"
  "bets (game (postBlinds s)) seat = roundToHundredth (min (nominalBlind s seat) (stacks (game s) seat))"
  unfolding postBlinds_def Let_def nominalBlind_def
  by (cases seat; cases "dealerOf s"; simp add: otherOf_def)+




subsection \<open>Showdown\<close>

text \<open>
  The current controller (\<open>src/unnamed/part_001\<close>). At a showdown the whole pot (the pot
  and both bets) goes to the seat whose hole cards with the board score strictly higher
  under \<open>compareScore\<close>; when the scores compare equal each seat receives half of it; the
  winner field of the hand result is the outcome of the comparison. Every action that
  ends a hand by showdown is such a settlement, on the river, with the cards of the hand,
  a board of five cards when nine cards were dealt, and the chips of the state after the
  check or the call with both bets in the pot.
\<close>

lemma showdown_awards_by_comparison:
  "(let potSize = pot (game t) + bets (game t) Top + bets (game t) Bottom;
        cmp = compareScore (evaluate7 (holeOf Bottom t @ boardOf t)) (evaluate7 (holeOf Top t @ boardOf t));
        t' = resolveShowdown t
    in (cmp > 0 \<longrightarrow> winner (handResult t') = Some (Seat Bottom) \<and>
          stacks (game t') Bottom = stacks (game t) Bottom + potSize \<and>
          stacks (game t') Top = stacks (game t) Top) \<and>
       (cmp < 0 \<longrightarrow> winner (handResult t') = Some (Seat Top) \<and>
          stacks (game t') Top = stacks (game t) Top + potSize \<and>
          stacks (game t') Bottom = stacks (game t) Bottom) \<and>
       (cmp = 0 \<longrightarrow> winner (handResult t') = Some Tie \<and>
          stacks (game t') Top = stacks (game t) Top + potSize / 2 \<and>
          stacks (game t') Bottom = stacks (game t) Bottom + potSize / 2) \<and>
       status (handResult t') = Ended \<and> reason (handResult t') = Some ByShowdown \<and>
       pot (game t') = 0 \<and> bets (game t') Top = 0 \<and> bets (game t') Bottom = 0) \<and>
   (reason (handResult s) \<noteq> Some ByShowdown \<and>
    reason (handResult (processAction seat a s)) = Some ByShowdown \<longrightarrow>
      (\<exists>u. processAction seat a s = resolveShowdown u \<and> street u = River \<and> cards u = cards s \<and>
           game u = pullBets (case a of CALL \<Rightarrow> callChips seat (game s) | _ \<Rightarrow> game s) \<and>
           length (boardOf u) = min 5 (length (allCards s) - 4)))"
proof -
  define cmp where "cmp = compareScore (evaluate7 (holeOf Bottom t @ boardOf t)) (evaluate7 (holeOf Top t @ boardOf t))"
  define potSize where "potSize = pot (game t) + bets (game t) Top + bets (game t) Bottom"
  define t' where "t' = resolveShowdown t"
  have c: "cmp = showdownCmp t" by (simp add: cmp_def showdownCmp_def Let_def)
  have w: "showdownWinner t = (if cmp > 0 then Seat Bottom else if cmp < 0 then Seat Top else Tie)"
    by (simp add: showdownWinner_def c Let_def)
  have r: "status (handResult t') = Ended \<and> reason (handResult t') = Some ByShowdown \<and>
           winner (handResult t') = Some (showdownWinner t) \<and>
           pot (game t') = 0 \<and> bets (game t') Top = 0 \<and> bets (game t') Bottom = 0"
    by (simp add: t'_def both_def)
  have b: "cmp > 0 \<Longrightarrow> stacks (game t') Bottom = stacks (game t) Bottom + potSize \<and> stacks (game t') Top = stacks (game t) Top"
    using resolveShowdown_stacks(1,2) [of t Bottom] by (simp add: w t'_def potSize_def)
  have tp: "cmp < 0 \<Longrightarrow> stacks (game t') Top = stacks (game t) Top + potSize \<and> stacks (game t') Bottom = stacks (game t) Bottom"
    using resolveShowdown_stacks(1,2) [of t Top] by (simp add: w t'_def potSize_def)
  have e: "cmp = 0 \<Longrightarrow> stacks (game t') Top = stacks (game t) Top + potSize / 2 \<and>
       stacks (game t') Bottom = stacks (game t) Bottom + potSize / 2"
    using resolveShowdown_stacks(3) [of t] by (simp add: w t'_def potSize_def)
  have first: "(cmp > 0 \<longrightarrow> winner (handResult t') = Some (Seat Bottom) \<and>
          stacks (game t') Bottom = stacks (game t) Bottom + potSize \<and>
          stacks (game t') Top = stacks (game t) Top) \<and>
       (cmp < 0 \<longrightarrow> winner (handResult t') = Some (Seat Top) \<and>
          stacks (game t') Top = stacks (game t) Top + potSize \<and>
          stacks (game t') Bottom = stacks (game t) Bottom) \<and>
       (cmp = 0 \<longrightarrow> winner (handResult t') = Some Tie \<and>
          stacks (game t') Top = stacks (game t) Top + potSize / 2 \<and>
          stacks (game t') Bottom = stacks (game t) Bottom + potSize / 2) \<and>
       status (handResult t') = Ended \<and> reason (handResult t') = Some ByShowdown \<and>
       pot (game t') = 0 \<and> bets (game t') Top = 0 \<and> bets (game t') Bottom = 0"
    using r b tp e w by auto
  have second: "reason (handResult s) \<noteq> Some ByShowdown \<and>
    reason (handResult (processAction seat a s)) = Some ByShowdown \<longrightarrow>
      (\<exists>u. processAction seat a s = resolveShowdown u \<and> street u = River \<and> cards u = cards s \<and>
           game u = pullBets (case a of CALL \<Rightarrow> callChips seat (game s) | _ \<Rightarrow> game s) \<and>
           length (boardOf u) = min 5 (length (allCards s) - 4))"
  proof
    assume h: "reason (handResult s) \<noteq> Some ByShowdown \<and>
      reason (handResult (processAction seat a s)) = Some ByShowdown"
    then obtain u where u: "processAction seat a s = resolveShowdown u" "street u = River" "cards u = cards s"
      "game u = pullBets (case a of CALL \<Rightarrow> callChips seat (game s) | _ \<Rightarrow> game s)"
      using processAction_showdown [of s seat a] by blast
    then have "length (boardOf u) = min 5 (length (allCards s) - 4)"
      by (simp add: boardOf_def allCards_def)
    with u show "\<exists>u. processAction seat a s = resolveShowdown u \<and> street u = River \<and> cards u = cards s \<and>
           game u = pullBets (case a of CALL \<Rightarrow> callChips seat (game s) | _ \<Rightarrow> game s) \<and>
           length (boardOf u) = min 5 (length (allCards s) - 4)" by blast
  qed
  from first second show ?thesis
    unfolding Let_def cmp_def potSize_def t'_def by blast
qed


lemma showdown_awards_by_comparison_witness:
  "compareScore (evaluate7 (holeOf Bottom (checkedToRiver exampleDeck) @ boardOf (checkedToRiver exampleDeck)))
     (evaluate7 (holeOf Top (checkedToRiver exampleDeck) @ boardOf (checkedToRiver exampleDeck))) < 0 \<and>
   winner (handResult (resolveShowdown (checkedToRiver exampleDeck))) = Some (Seat Top) \<and>
   stacks (game (resolveShowdown (checkedToRiver exampleDeck))) Top = 26 \<and>
   stacks (game (resolveShowdown (checkedToRiver exampleDeck))) Bottom = 24 \<and>
   compareScore (evaluate7 (holeOf Bottom (checkedToRiver bottomWinsDeck) @ boardOf (checkedToRiver bottomWinsDeck)))
     (evaluate7 (holeOf Top (checkedToRiver bottomWinsDeck) @ boardOf (checkedToRiver bottomWinsDeck))) > 0 \<and>
   winner (handResult (resolveShowdown (checkedToRiver bottomWinsDeck))) = Some (Seat Bottom) \<and>
   stacks (game (resolveShowdown (checkedToRiver bottomWinsDeck))) Bottom = 26 \<and>
   stacks (game (resolveShowdown (checkedToRiver bottomWinsDeck))) Top = 24 \<and>
   compareScore (evaluate7 (holeOf Bottom (checkedToRiver tieDeck) @ boardOf (checkedToRiver tieDeck)))
     (evaluate7 (holeOf Top (checkedToRiver tieDeck) @ boardOf (checkedToRiver tieDeck))) = 0 \<and>
   winner (handResult (resolveShowdown (checkedToRiver tieDeck))) = Some Tie \<and>
   stacks (game (resolveShowdown (checkedToRiver tieDeck))) Top = 25 \<and>
   stacks (game (resolveShowdown (checkedToRiver tieDeck))) Bottom = 25 \<and>
   reason (handResult (checkedToRiver exampleDeck)) \<noteq> Some ByShowdown \<and>
   reason (handResult (processAction Top CHECK (checkedToRiver exampleDeck))) = Some ByShowdown \<and>
   (\<exists>u. processAction Top CHECK (checkedToRiver exampleDeck) = resolveShowdown u \<and> street u = River \<and>
        cards u = cards (checkedToRiver exampleDeck) \<and>
        game u = pullBets (game (checkedToRiver exampleDeck)) \<and> length (boardOf u) = 5)"
proof -
  let ?a = "checkedToRiver exampleDeck" and ?b = "checkedToRiver bottomWinsDeck" and ?c = "checkedToRiver tieDeck"
  have a: "compareScore (evaluate7 (holeOf Bottom ?a @ boardOf ?a)) (evaluate7 (holeOf Top ?a @ boardOf ?a)) < 0"
    by code_simp
  have b: "compareScore (evaluate7 (holeOf Bottom ?b @ boardOf ?b)) (evaluate7 (holeOf Top ?b @ boardOf ?b)) > 0"
    by code_simp
  have c: "compareScore (evaluate7 (holeOf Bottom ?c @ boardOf ?c)) (evaluate7 (holeOf Top ?c @ boardOf ?c)) = 0"
    by code_simp
  have va: "stacks (game ?a) Top = 24" "stacks (game ?a) Bottom = 24"
           "pot (game ?a) + bets (game ?a) Top + bets (game ?a) Bottom = 2"
    by code_simp+
  have vb: "stacks (game ?b) Top = 24" "stacks (game ?b) Bottom = 24"
           "pot (game ?b) + bets (game ?b) Top + bets (game ?b) Bottom = 2"
    by code_simp+
  have vc: "stacks (game ?c) Top = 24" "stacks (game ?c) Bottom = 24"
           "pot (game ?c) + bets (game ?c) Top + bets (game ?c) Bottom = 2"
    by code_simp+
  have r: "reason (handResult ?a) \<noteq> Some ByShowdown"
          "reason (handResult (processAction Top CHECK ?a)) = Some ByShowdown"
          "min 5 (length (allCards ?a) - 4) = 5"
    by code_simp+
  from showdown_awards_by_comparison [of ?a ?a Top CHECK, unfolded Let_def] a va r
  have ra: "winner (handResult (resolveShowdown ?a)) = Some (Seat Top) \<and>
            stacks (game (resolveShowdown ?a)) Top = 26 \<and> stacks (game (resolveShowdown ?a)) Bottom = 24 \<and>
            (\<exists>u. processAction Top CHECK ?a = resolveShowdown u \<and> street u = River \<and>
                 cards u = cards ?a \<and> game u = pullBets (game ?a) \<and> length (boardOf u) = 5)"
    by simp
  from showdown_awards_by_comparison [of ?b ?b Top CHECK, unfolded Let_def] b vb
  have rb: "winner (handResult (resolveShowdown ?b)) = Some (Seat Bottom) \<and>
            stacks (game (resolveShowdown ?b)) Bottom = 26 \<and> stacks (game (resolveShowdown ?b)) Top = 24"
    by simp
  from showdown_awards_by_comparison [of ?c ?c Top CHECK, unfolded Let_def] c vc
  have rc: "winner (handResult (resolveShowdown ?c)) = Some Tie \<and>
            stacks (game (resolveShowdown ?c)) Top = 25 \<and> stacks (game (resolveShowdown ?c)) Bottom = 25"
    by simp
  from a b c ra rb rc r show ?thesis by blast
qed

text \<open>The older copy never gives a tie, and its winner is a function of the random number.\<close>

lemma resolveShowdown_app_winner:
  "winner (handResult (resolveShowdown_app random s)) =
     Some (Seat (if random > 1 / 2 then Top else Bottom))"
  by (simp add: resolveShowdown_app_def Let_def logAction_def)

lemma resolveShowdown_app_stacks:
  "stacks (game (resolveShowdown_app random s)) (if random > 1 / 2 then Top else Bottom) =
     stacks (game s) (if random > 1 / 2 then Top else Bottom) +
       (pot (game s) + bets (game s) Top + bets (game s) Bottom)"
  by (simp add: resolveShowdown_app_def Let_def logAction_def)

text \<open>
  C2 (defect in \<open>src/app/multiplayerHost.ts\<close>). The claim has the pot go to the seat with
  the strictly greater score. In \<open>placeholderRiver\<close> the bottom seat holds ace high
  against jack high, and the current controller gives it the pot; the copy of
  \<open>resolveShowdown\<close> in \<open>src/app/multiplayerHost.ts\<close>, with \<open>Math.random()\<close> returning
  0.75, names the top seat the winner and adds the pot of 2 to its stack.
\<close>

theorem placeholder_showdown_ignores_cards:
  "compareScore (evaluate7 (holeOf Bottom placeholderRiver @ boardOf placeholderRiver))
     (evaluate7 (holeOf Top placeholderRiver @ boardOf placeholderRiver)) = 1 \<and>
   winner (handResult (resolveShowdown placeholderRiver)) = Some (Seat Bottom) \<and>
   stacks (game (resolveShowdown placeholderRiver)) Bottom = 51 \<and>
   stacks (game (resolveShowdown placeholderRiver)) Top = 49 \<and>
   winner (handResult (resolveShowdown_app (3 / 4) placeholderRiver)) = Some (Seat Top) \<and>
   stacks (game (resolveShowdown_app (3 / 4) placeholderRiver)) Top = 51 \<and>
   stacks (game (resolveShowdown_app (3 / 4) placeholderRiver)) Bottom = 49 \<and>
   pot (game (resolveShowdown_app (3 / 4) placeholderRiver)) = 0"
  by code_simp

subsection \<open>The unraised preflop round\<close>

lemma hundredths_equal_after_call:
  assumes "hundredths (bets g seat)" "hundredths (bets g (otherOf seat))"
  shows "bets (callChips seat g) seat = bets (callChips seat g) (otherOf seat)"
proof -
  let ?bs = "bets g seat" and ?bo = "bets g (otherOf seat)"
  have tc: "toCallOf seat g = ?bo - ?bs"
    using assms by (simp add: toCallOf_def round_hundredths hundredths_diff)
  show ?thesis
  proof (cases "actualCallOf seat g < toCallOf seat g")
    case True
    let ?b1 = "roundToHundredth (?bs + actualCallOf seat g)"
    have "roundToHundredth (?bo - ?b1) = ?bo - ?b1"
      using assms by (simp add: round_hundredths hundredths_diff)
    moreover have "roundToHundredth ?b1 = ?b1" by (simp add: round_hundredths)
    ultimately show ?thesis using True
      by (simp add: callChips_def Let_def)
  next
    case False
    have "actualCallOf seat g \<le> toCallOf seat g"
    proof -
      have "min (toCallOf seat g) (stacks g seat) \<le> toCallOf seat g" by simp
      then have "\<lfloor>min (toCallOf seat g) (stacks g seat) * 100 + 1 / 2\<rfloor> \<le> \<lfloor>toCallOf seat g * 100 + 1 / 2\<rfloor>"
        by (intro floor_mono) simp
      then have "roundToHundredth (min (toCallOf seat g) (stacks g seat)) \<le> roundToHundredth (toCallOf seat g)"
        by (simp add: roundToHundredth_def divide_right_mono)
      moreover have "roundToHundredth (toCallOf seat g) = toCallOf seat g"
        by (simp add: toCallOf_def round_hundredths)
      ultimately show ?thesis by (simp add: actualCallOf_def)
    qed
    with False have ac: "actualCallOf seat g = ?bo - ?bs" using tc by simp
    have "roundToHundredth ?bo = ?bo" using assms by (simp add: round_hundredths)
    then show ?thesis using False ac
      by (simp add: callChips_def Let_def)
  qed
qed


lemma postBlinds_fields [simp]:
  "street (postBlinds s) = street s"
  "handResult (postBlinds s) = handResult s"
  "lastAggressor (postBlinds s) = lastAggressor s"
  "cards (postBlinds s) = cards s"
  "handStartStacks (postBlinds s) = handStartStacks s"
  "handId (postBlinds s) = handId s"
  "gameOver (postBlinds s) = gameOver s"
  "toAct (postBlinds s) = dealerOf s"
  "dealerOf (postBlinds s) = dealerOf s"
  "pot (game (postBlinds s)) = pot (game s)"
  by (simp_all add: postBlinds_def Let_def dealerOf_def)

lemma startHand_fields [simp]:
  "street (startHand deck s) = Preflop"
  "handResult (startHand deck s) = \<lparr> status = Playing, winner = None, reason = None, message = [] \<rparr>"
  "lastAggressor (startHand deck s) = None"
  "cards (startHand deck s) = Some deck"
  "gameOver (startHand deck s) = gameOver s"
  "pot (game (startHand deck s)) = pot (game s)"
  by (simp_all add: startHand_def Let_def)

lemma startHand_toAct [simp]: "toAct (startHand deck s) = dealerOf (startHand deck s)"
  by (simp add: startHand_def Let_def)

lemma startHand_bets_hundredths [simp]: "hundredths (bets (game (startHand deck s)) seat)"
  by (simp add: startHand_def Let_def postBlinds_game)

text \<open>
  C5 (amended). In a preflop round with only the blinds posted, after the dealer calls
  the big blind has the option; when the big blind then checks and both stacks are
  positive, the street closes: the bets are pulled into the pot, the street is the flop
  and the non-dealer acts first. When a seat is all-in after the call, the check also
  closes the street, but the hand runs out to the river and is settled by showdown.
\<close>

theorem preflop_call_check_closes:
  "(let s = startHand deck s0;
        dealer = dealerOf s;
        nonDealer = otherOf dealer;
        s1 = processAction dealer CALL s;
        s2 = processAction nonDealer CHECK s1
    in toAct s1 = nonDealer \<and> street s1 = Preflop \<and> status (handResult s1) = Playing \<and>
       (0 < stacks (game s1) Top \<and> 0 < stacks (game s1) Bottom \<longrightarrow>
          street s2 = Flop \<and> toAct s2 = nonDealer \<and> status (handResult s2) = Playing \<and>
          bets (game s2) Top = 0 \<and> bets (game s2) Bottom = 0 \<and>
          pot (game s2) = pot (game s1) + (bets (game s1) Top + bets (game s1) Bottom) \<and>
          stacks (game s2) = stacks (game s1)) \<and>
       (stacks (game s1) Top \<le> 0 \<or> stacks (game s1) Bottom \<le> 0 \<longrightarrow>
          street s2 = River \<and> status (handResult s2) = Ended \<and> reason (handResult s2) = Some ByShowdown \<and>
          bets (game s2) Top = 0 \<and> bets (game s2) Bottom = 0 \<and> pot (game s2) = 0))"
proof -
  define s where "s = startHand deck s0"
  define d where "d = dealerOf s"
  define s1 where "s1 = processAction d CALL s"
  define s2 where "s2 = processAction (otherOf d) CHECK s1"
  have pre: "street s = Preflop" "lastAggressor s = None" "toAct s = d" "status (handResult s) = Playing"
    by (simp_all add: s_def d_def)
  then have s1: "s1 = (callMarked d s)\<lparr> toAct := otherOf d \<rparr>"
    by (simp add: s1_def processAction_def handleCall_eq d_def)
  then have f1: "toAct s1 = otherOf d" "street s1 = Preflop" "status (handResult s1) = Playing"
    "game s1 = callChips d (game s)" "dealerOf s1 = d"
    using pre by (simp_all add: d_def dealerOf_def callMarked_def Let_def)
  have eq: "bets (game s1) Top = bets (game s1) Bottom"
    using hundredths_equal_after_call [of "game s" d] f1(4)
    by (cases d) (simp_all add: s_def)
  have act: "actionsThisStreet s1 + 1 \<ge> 2"
    using s1 by simp
  let ?m = "checkMarked (otherOf d) s1"
  have s2: "s2 = advanceStreet ?m"
    using f1 eq act by (simp add: s2_def processAction_def handleCheck_eq)
  have m: "street ?m = Preflop" "game ?m = game s1" "dealerOf ?m = d" "handResult ?m = handResult s1"
    using f1 by simp_all
  have open_flop: "0 < stacks (game s1) Top \<and> 0 < stacks (game s1) Bottom \<longrightarrow>
          street s2 = Flop \<and> toAct s2 = otherOf d \<and> status (handResult s2) = Playing \<and>
          bets (game s2) Top = 0 \<and> bets (game s2) Bottom = 0 \<and>
          pot (game s2) = pot (game s1) + (bets (game s1) Top + bets (game s1) Bottom) \<and>
          stacks (game s2) = stacks (game s1)"
  proof
    assume pos: "0 < stacks (game s1) Top \<and> 0 < stacks (game s1) Bottom"
    from advanceStreet_cases [of ?m] m pos
    have "handResult (advanceStreet ?m) = handResult ?m \<and> game (advanceStreet ?m) = pullBets (game ?m) \<and>
      toAct (advanceStreet ?m) = otherOf (dealerOf ?m) \<and> street (advanceStreet ?m) = Flop"
      by auto
    with m f1 s2 show "street s2 = Flop \<and> toAct s2 = otherOf d \<and> status (handResult s2) = Playing \<and>
          bets (game s2) Top = 0 \<and> bets (game s2) Bottom = 0 \<and>
          pot (game s2) = pot (game s1) + (bets (game s1) Top + bets (game s1) Bottom) \<and>
          stacks (game s2) = stacks (game s1)"
      by (simp add: pullBets_def both_def)
  qed
  have run_out: "stacks (game s1) Top \<le> 0 \<or> stacks (game s1) Bottom \<le> 0 \<longrightarrow>
          street s2 = River \<and> status (handResult s2) = Ended \<and> reason (handResult s2) = Some ByShowdown \<and>
          bets (game s2) Top = 0 \<and> bets (game s2) Bottom = 0 \<and> pot (game s2) = 0"
  proof
    assume allin: "stacks (game s1) Top \<le> 0 \<or> stacks (game s1) Bottom \<le> 0"
    from advanceStreet_cases [of ?m] m allin
    obtain t where "advanceStreet ?m = resolveShowdown t" "street t = River"
      by auto
    with s2 show "street s2 = River \<and> status (handResult s2) = Ended \<and> reason (handResult s2) = Some ByShowdown \<and>
          bets (game s2) Top = 0 \<and> bets (game s2) Bottom = 0 \<and> pot (game s2) = 0"
      by (simp add: both_def)
  qed
  from f1 open_flop run_out show ?thesis
    unfolding Let_def s_def [symmetric] d_def [symmetric] s1_def [symmetric] s2_def [symmetric]
    by blast
qed

theorem preflop_call_check_closes_witness:
  "0 < stacks (game (processAction Top CALL firstHand)) Top \<and>
   0 < stacks (game (processAction Top CALL firstHand)) Bottom \<and>
   street (processAction Bottom CHECK (processAction Top CALL firstHand)) = Flop \<and>
   toAct (processAction Bottom CHECK (processAction Top CALL firstHand)) = Bottom \<and>
   pot (game (processAction Bottom CHECK (processAction Top CALL firstHand))) = 2 \<and>
   (stacks (game (processAction Top CALL bigBlindAllIn)) Top \<le> 0 \<or>
    stacks (game (processAction Top CALL bigBlindAllIn)) Bottom \<le> 0) \<and>
   street (processAction Bottom CHECK (processAction Top CALL bigBlindAllIn)) = River \<and>
   status (handResult (processAction Bottom CHECK (processAction Top CALL bigBlindAllIn))) = Ended"
proof -
  have d: "dealerOf firstHand = Top" "dealerOf bigBlindAllIn = Top" by code_simp+
  have a: "0 < stacks (game (processAction Top CALL firstHand)) Top"
          "0 < stacks (game (processAction Top CALL firstHand)) Bottom"
          "pot (game (processAction Top CALL firstHand)) +
             (bets (game (processAction Top CALL firstHand)) Top +
              bets (game (processAction Top CALL firstHand)) Bottom) = 2"
    by code_simp+
  have b: "stacks (game (processAction Top CALL bigBlindAllIn)) Bottom \<le> 0" by code_simp
  from preflop_call_check_closes [of exampleDeck "createInitialState 0", unfolded Let_def, folded firstHand_def] d a
  have r1: "street (processAction Bottom CHECK (processAction Top CALL firstHand)) = Flop \<and>
            toAct (processAction Bottom CHECK (processAction Top CALL firstHand)) = Bottom \<and>
            pot (game (processAction Bottom CHECK (processAction Top CALL firstHand))) = 2"
    by simp
  from preflop_call_check_closes
         [of exampleDeck "(createInitialState 0)\<lparr> game := \<lparr> stacks = both 25 1, bets = both 0 0, pot = 0 \<rparr> \<rparr>",
          unfolded Let_def, folded bigBlindAllIn_def] d b
  have r2: "street (processAction Bottom CHECK (processAction Top CALL bigBlindAllIn)) = River \<and>
            status (handResult (processAction Bottom CHECK (processAction Top CALL bigBlindAllIn))) = Ended"
    by simp
  from a b r1 r2 show ?thesis by blast
qed

theorem preflop_call_check_counterexample:
  "street bigBlindAllIn = Preflop \<and> lastAggressor bigBlindAllIn = None \<and>
   status (handResult bigBlindAllIn) = Playing \<and>
   dealerOf bigBlindAllIn = Top \<and> toAct bigBlindAllIn = Top \<and>
   bets (game bigBlindAllIn) Top = 1 / 2 \<and> bets (game bigBlindAllIn) Bottom = 1 \<and>
   toAct (processAction Top CALL bigBlindAllIn) = Bottom \<and>
   street (processAction Bottom CHECK (processAction Top CALL bigBlindAllIn)) \<noteq> Flop \<and>
   street (processAction Bottom CHECK (processAction Top CALL bigBlindAllIn)) = River \<and>
   status (handResult (processAction Bottom CHECK (processAction Top CALL bigBlindAllIn))) = Ended \<and>
   reason (handResult (processAction Bottom CHECK (processAction Top CALL bigBlindAllIn))) = Some ByShowdown"
  by code_simp

subsection \<open>Chip conservation\<close>

lemma both_simps [simp]: "both a b Top = a" "both a b Bottom = b" "both a a seat = a"
  by (cases seat; simp add: both_def)+

lemma gridGame_seat: "gridGame g \<Longrightarrow> hundredths (stacks g seat) \<and> hundredths (bets g seat)"
  by (cases seat) (simp_all add: gridGame_def)

lemma chipTotal_seat:
  "chipTotal g = stacks g seat + stacks g (otherOf seat) + bets g seat + bets g (otherOf seat) + pot g"
  by (cases seat) (simp_all add: chipTotal_def)

lemma gridGame_seat_iff:
  "gridGame g = (hundredths (stacks g seat) \<and> hundredths (stacks g (otherOf seat)) \<and>
                 hundredths (bets g seat) \<and> hundredths (bets g (otherOf seat)) \<and> hundredths (pot g))"
  by (cases seat) (auto simp add: gridGame_def)

lemma betChips_fields:
  "bets (betChips seat amount g) seat = roundToHundredth (min amount (bets g seat + stacks g seat))"
  "bets (betChips seat amount g) (otherOf seat) = bets g (otherOf seat)"
  "stacks (betChips seat amount g) seat =
     roundToHundredth (stacks g seat - (min amount (bets g seat + stacks g seat) - bets g seat))"
  "stacks (betChips seat amount g) (otherOf seat) = stacks g (otherOf seat)"
  "pot (betChips seat amount g) = pot g"
  by (simp_all add: betChips_def Let_def)

lemma betChips_grid:
  assumes "gridGame g" "hundredths amount"
  shows "gridGame (betChips seat amount g)" "chipTotal (betChips seat amount g) = chipTotal g"
proof -
  from assms(1) have g: "hundredths (stacks g seat)" "hundredths (stacks g (otherOf seat))"
    "hundredths (bets g seat)" "hundredths (bets g (otherOf seat))" "hundredths (pot g)"
    by (simp_all add: gridGame_seat_iff [of g seat])
  let ?c = "min amount (bets g seat + stacks g seat)"
  have c: "hundredths ?c" using assms(2) g by (simp add: hundredths_min hundredths_add)
  then have rc: "roundToHundredth ?c = ?c" by (rule round_hundredths)
  have "hundredths (stacks g seat - (?c - bets g seat))"
    using c g by (simp add: hundredths_diff)
  then have rs: "roundToHundredth (stacks g seat - (?c - bets g seat)) = stacks g seat - (?c - bets g seat)"
    by (rule round_hundredths)
  show "gridGame (betChips seat amount g)"
    using g by (simp add: gridGame_seat_iff [of _ seat] betChips_fields)
  show "chipTotal (betChips seat amount g) = chipTotal g"
    by (simp add: chipTotal_seat [of _ seat] betChips_fields rc rs)
qed

lemma callChips_fields:
  "pot (callChips seat g) = pot g"
  "bets (callChips seat g) seat = roundToHundredth (bets g seat + actualCallOf seat g)"
  "stacks (callChips seat g) seat = roundToHundredth (stacks g seat - actualCallOf seat g)"
  "bets (callChips seat g) (otherOf seat) =
     (if actualCallOf seat g < toCallOf seat g
      then roundToHundredth (bets g (otherOf seat) -
             roundToHundredth (bets g (otherOf seat) - roundToHundredth (bets g seat + actualCallOf seat g)))
      else bets g (otherOf seat))"
  "stacks (callChips seat g) (otherOf seat) =
     (if actualCallOf seat g < toCallOf seat g
      then roundToHundredth (stacks g (otherOf seat) +
             roundToHundredth (bets g (otherOf seat) - roundToHundredth (bets g seat + actualCallOf seat g)))
      else stacks g (otherOf seat))"
  by (simp_all add: callChips_def Let_def)

lemma callChips_grid:
  assumes "gridGame g"
  shows "gridGame (callChips seat g)" "chipTotal (callChips seat g) = chipTotal g"
proof -
  from assms(1) have g: "hundredths (stacks g seat)" "hundredths (stacks g (otherOf seat))"
    "hundredths (bets g seat)" "hundredths (bets g (otherOf seat))" "hundredths (pot g)"
    by (simp_all add: gridGame_seat_iff [of g seat])
  let ?a = "actualCallOf seat g"
  have a: "hundredths ?a" by (simp add: actualCallOf_def)
  have r1: "roundToHundredth (bets g seat + ?a) = bets g seat + ?a"
    using g a by (simp add: round_hundredths hundredths_add)
  have r2: "roundToHundredth (stacks g seat - ?a) = stacks g seat - ?a"
    using g a by (simp add: round_hundredths hundredths_diff)
  let ?r = "bets g (otherOf seat) - (bets g seat + ?a)"
  have r: "hundredths ?r" using g a by (simp add: hundredths_diff hundredths_add)
  have r3: "roundToHundredth ?r = ?r" using r by (rule round_hundredths)
  have r4: "roundToHundredth (bets g (otherOf seat) - ?r) = bets g (otherOf seat) - ?r"
    by (rule round_hundredths) (use g a in \<open>simp add: hundredths_diff hundredths_add\<close>)
  have r5: "roundToHundredth (stacks g (otherOf seat) + ?r) = stacks g (otherOf seat) + ?r"
    by (rule round_hundredths) (use g a in \<open>simp add: hundredths_diff hundredths_add\<close>)
  show "chipTotal (callChips seat g) = chipTotal g"
    by (simp add: chipTotal_seat [of _ seat] callChips_fields r1 r2 r3 r4 r5)
  show "gridGame (callChips seat g)"
    using g by (simp add: gridGame_seat_iff [of _ seat] callChips_fields)
qed

lemma pullBets_grid:
  "chipTotal (pullBets g) = chipTotal g"
  "gridGame g \<Longrightarrow> gridGame (pullBets g)"
  by (simp_all add: pullBets_def chipTotal_def gridGame_def both_def hundredths_add)

lemma resolveShowdown_total: "chipTotal (game (resolveShowdown t)) = chipTotal (game t)"
proof (cases "showdownWinner t")
  case (Seat x)
  then show ?thesis
    using resolveShowdown_stacks(1,2) [of t x]
    by (cases x) (simp_all add: chipTotal_def)
next
  case Tie
  then show ?thesis
    using resolveShowdown_stacks(3) [of t]
    by (simp add: chipTotal_def)
qed

lemma handleFold_total: "chipTotal (game (handleFold seat s)) = chipTotal (game s)"
  using handleFold_fields(8,9) [of seat s]
  by (cases seat) (simp_all add: chipTotal_def)

lemma advanceStreet_inv:
  assumes "chipTotal (game u) = startTotal u" "gridGame (game u)"
  shows "chipTotal (game (advanceStreet u)) = startTotal (advanceStreet u) \<and>
         (status (handResult (advanceStreet u)) = Playing \<longrightarrow> status (handResult u) = Playing \<and> gridGame (game (advanceStreet u)))"
  using advanceStreet_cases [of u]
proof
  assume "\<exists>t. advanceStreet u = resolveShowdown t \<and> street t = River \<and> cards t = cards u \<and>
        game t = pullBets (game u) \<and> handStartStacks t = handStartStacks u \<and> gameOver t = gameOver u \<and>
        (street u = River \<or> stacks (game u) Top \<le> 0 \<or> stacks (game u) Bottom \<le> 0)"
  then obtain t where t: "advanceStreet u = resolveShowdown t" "game t = pullBets (game u)"
    "handStartStacks t = handStartStacks u" by blast
  then show ?thesis using assms
    by (simp add: resolveShowdown_total pullBets_grid startTotal_def)
next
  assume "handResult (advanceStreet u) = handResult u \<and> game (advanceStreet u) = pullBets (game u) \<and>
    cards (advanceStreet u) = cards u \<and> handStartStacks (advanceStreet u) = handStartStacks u \<and>
    gameOver (advanceStreet u) = gameOver u \<and>
    toAct (advanceStreet u) = otherOf (dealerOf u) \<and>
    street (advanceStreet u) = (case street u of Preflop \<Rightarrow> Flop | Flop \<Rightarrow> Turn | _ \<Rightarrow> River) \<and>
    street u \<noteq> River \<and>
    (street u = Turn \<or> (0 < stacks (game u) Top \<and> 0 < stacks (game u) Bottom))"
  then show ?thesis using assms
    by (simp add: pullBets_grid startTotal_def)
qed

lemma processAction_inv:
  assumes "handInv s" "gridAction a"
  shows "handInv (processAction seat a s)"
proof (cases "toAct s \<noteq> seat \<or> status (handResult s) \<noteq> Playing")
  case True
  with assms show ?thesis by (auto simp add: processAction_def)
next
  case False
  then have g: "toAct s = seat" "status (handResult s) = Playing" by auto
  with assms have c: "chipTotal (game s) = startTotal s" and gg: "gridGame (game s)"
    by (simp_all add: handInv_def conserved_def)
  show ?thesis
  proof (cases a)
    case FOLD
    with g c show ?thesis
      by (simp add: processAction_def handInv_def conserved_def handleFold_total startTotal_def)
  next
    case (BET_RAISE_TO x)
    with assms(2) have "hundredths x" by (simp add: gridAction_def)
    with BET_RAISE_TO g c gg show ?thesis
      by (simp add: processAction_def handInv_def conserved_def betChips_grid startTotal_def)
  next
    case CHECK
    have m: "chipTotal (game (checkMarked seat s)) = startTotal (checkMarked seat s)"
      "gridGame (game (checkMarked seat s))"
      using c gg by (simp_all add: startTotal_def)
    from advanceStreet_inv [OF m] CHECK g c gg show ?thesis
      by (auto simp add: processAction_def handInv_def conserved_def handleCheck_eq startTotal_def)
  next
    case CALL
    have m: "chipTotal (game (callMarked seat s)) = startTotal (callMarked seat s)"
      "gridGame (game (callMarked seat s))"
      using c gg by (simp_all add: startTotal_def callChips_grid)
    from advanceStreet_inv [OF m] CALL g c gg show ?thesis
      by (auto simp add: processAction_def handInv_def conserved_def handleCall_eq startTotal_def callChips_grid)
  qed
qed

lemma runActions_inv:
  "handInv s \<Longrightarrow> \<forall>(seat, a) \<in> set acts. gridAction a \<Longrightarrow> handInv (runActions acts s)"
proof (induction acts arbitrary: s)
  case Nil
  then show ?case by (simp add: runActions_def)
next
  case (Cons x acts)
  obtain seat a where x: "x = (seat, a)" by (cases x)
  with Cons.prems have "handInv (processAction seat a s)" by (simp add: processAction_inv)
  with Cons.IH [of "processAction seat a s"] Cons.prems x show ?case
    by (simp add: runActions_def)
qed


lemma blind_split:
  assumes "hundredths x" "hundredths b"
  shows "roundToHundredth (x - min b x) + roundToHundredth (min b x) = x"
proof -
  have "hundredths (min b x)" using assms by (simp add: hundredths_min)
  moreover from this have "hundredths (x - min b x)" using assms by (simp add: hundredths_diff)
  ultimately show ?thesis by (simp add: round_hundredths)
qed

lemma postBlinds_inv:
  assumes "pot (game s) = 0" "hundredths (stacks (game s) Top)" "hundredths (stacks (game s) Bottom)"
    and "handStartStacks s = both (stacks (game s) Top) (stacks (game s) Bottom)"
  shows "chipTotal (game (postBlinds s)) = startTotal (postBlinds s)" "gridGame (game (postBlinds s))"
proof -
  have nb: "\<And>seat. hundredths (nominalBlind s seat)" by (simp add: nominalBlind_def)
  have "\<And>seat. hundredths (stacks (game s) seat)"
    using assms(2,3) by (case_tac seat) simp_all
  then have sp: "\<And>seat. stacks (game (postBlinds s)) seat + bets (game (postBlinds s)) seat = stacks (game s) seat"
    using blind_split nb by (simp add: postBlinds_game)
  from sp [of Top] sp [of Bottom] assms(1,4)
  show "chipTotal (game (postBlinds s)) = startTotal (postBlinds s)"
    by (simp add: chipTotal_def startTotal_def)
  show "gridGame (game (postBlinds s))"
    using assms(1) by (simp add: gridGame_def postBlinds_game)
qed

lemma startHand_inv:
  assumes "pot (game s0) = 0" "hundredths (stacks (game s0) Top)" "hundredths (stacks (game s0) Bottom)"
  shows "handInv (startHand deck s0)"
proof -
  have r: "\<And>k::int. hundredths (rat_of_int k / 100)"
    unfolding hundredths_iff by blast
  have "chipTotal (game (startHand deck s0)) = startTotal (startHand deck s0) \<and> gridGame (game (startHand deck s0))"
    unfolding startHand_def Let_def
    by (intro conjI postBlinds_inv) (use assms r in \<open>simp_all\<close>)
  then show ?thesis by (simp add: handInv_def conserved_def)
qed

text \<open>
  Conservation on the grid of hundredths: after any \<open>startHand\<close> from a state with an
  empty pot and stacks in whole hundredths, every sequence of actions whose bet and raise
  targets are whole hundredths keeps the chip total equal to the total of the stacks at
  the start of the hand.
\<close>

lemma conservation_on_hundredths:
  assumes "pot (game s0) = 0" "hundredths (stacks (game s0) Top)" "hundredths (stacks (game s0) Bottom)"
    and "\<forall>(seat, a) \<in> set acts. gridAction a"
  shows "chipTotal (game (runActions acts (startHand deck s0))) = startTotal (runActions acts (startHand deck s0))"
  using runActions_inv [OF startHand_inv [OF assms(1,2,3)] assms(4)]
  by (simp add: handInv_def conserved_def)

text \<open>
  C1. Chip conservation: in every state reached by the operations of the betting engine
  within a hand, the stacks, the bets and the pot add up to the two stacks at the start
  of the hand. In a hand that starts from stacks in whole hundredths the host keeps the
  equation for every sequence of actions whose bet and raise targets are whole hundredths
  (\<open>conservation_on_hundredths\<close>). It breaks it on a raise to a target that is not: \<open>handleBetRaise\<close> rounds the new bet and the new
  stack separately, and on the first hand a raise to 2.125 by the dealer leaves a total
  of 50.01 for starting stacks of 50.
\<close>

theorem conservation_broken_by_fractional_raise:
  "chipTotal (game firstHand) = 50 \<and> startTotal firstHand = 50 \<and>
   toAct firstHand = Top \<and> status (handResult firstHand) = Playing \<and>
   stacks (game firstHand) Top = 49 / 2 \<and> bets (game firstHand) Top = 1 / 2 \<and>
   bets (game (processAction Top (BET_RAISE_TO (17 / 8)) firstHand)) Top = 213 / 100 \<and>
   stacks (game (processAction Top (BET_RAISE_TO (17 / 8)) firstHand)) Top = 2288 / 100 \<and>
   chipTotal (game (processAction Top (BET_RAISE_TO (17 / 8)) firstHand)) = 50 + 1 / 100 \<and>
   startTotal (processAction Top (BET_RAISE_TO (17 / 8)) firstHand) = 50"
  by code_simp

subsection \<open>Bet and raise targets\<close>

lemma round_mono: "x \<le> y \<Longrightarrow> roundToHundredth x \<le> roundToHundredth y"
proof -
  assume "x \<le> y"
  then have "\<lfloor>x * 100 + 1 / 2\<rfloor> \<le> \<lfloor>y * 100 + 1 / 2\<rfloor>" by (intro floor_mono) simp
  then show ?thesis by (simp add: roundToHundredth_def divide_right_mono)
qed

lemma minTargetOf_hundredths [simp]: "hundredths (minTargetOf seat g l)"
  by (simp add: minTargetOf_def Let_def)

lemma maxEffectiveOf_hundredths [simp]: "hundredths (maxEffectiveOf seat g)"
  by (simp add: maxEffectiveOf_def Let_def)

lemma actBetRaiseTo_clamps:
  assumes "actBetRaiseTo_target seat g l t = RaiseTo x"
    and "minTargetOf seat g l \<le> maxEffectiveOf seat g"
  shows "minTargetOf seat g l \<le> x \<and> x \<le> maxEffectiveOf seat g"
proof -
  let ?lo = "minTargetOf seat g l" and ?hi = "maxEffectiveOf seat g"
  from assms have x: "x = roundToHundredth (clamp t ?lo ?hi)"
    by (auto simp add: actBetRaiseTo_target_def Let_def split: if_splits)
  have "?lo \<le> clamp t ?lo ?hi" "clamp t ?lo ?hi \<le> ?hi"
    using assms(2) by (simp_all add: clamp_def)
  then have "roundToHundredth ?lo \<le> x" "x \<le> roundToHundredth ?hi"
    unfolding x by (simp_all add: round_mono)
  then show ?thesis by (simp add: round_hundredths)
qed


lemma actBetRaiseTo_scenario:
  "actBetRaiseTo_target Top (game facingFour) (lastRaiseSize facingFour) 5 = RaiseTo 6"
  by code_simp

text \<open>
  C4. The target of every bet or raise is clamped into the interval from the minimum
  legal raise (the opponent's bet plus the last raise size when facing a bet) to the
  effective maximum (the smaller of the two seats' total chips); facing 4 with a last
  raise of 2, an attempt to raise to 5 becomes a raise to 6. The page component does so
  (\<open>actBetRaiseTo_clamps\<close>, \<open>actBetRaiseTo_scenario\<close>); the host's \<open>handleBetRaise\<close>
  only caps the amount at the chips of the acting seat, and in the same spot it records
  a raise to 5 with a last raise size of 1.
\<close>

theorem host_raise_below_minimum:
  "toAct facingFour = Top \<and> status (handResult facingFour) = Playing \<and>
   bets (game facingFour) Bottom = 4 \<and> bets (game facingFour) Top = 2 \<and> lastRaiseSize facingFour = 2 \<and>
   stacks (game facingFour) Top = 23 \<and> stacks (game facingFour) Bottom = 21 \<and>
   minTargetOf Top (game facingFour) (lastRaiseSize facingFour) = 6 \<and>
   maxEffectiveOf Top (game facingFour) = 25 \<and>
   bets (game (processAction Top (BET_RAISE_TO 5) facingFour)) Top = 5 \<and>
   lastRaiseSize (processAction Top (BET_RAISE_TO 5) facingFour) = 1 \<and>
   toAct (processAction Top (BET_RAISE_TO 5) facingFour) = Bottom"
  by code_simp

subsection \<open>The short stack facing a bet\<close>

lemma short_call_runs_out:
  "stacks (game (processAction Bottom CALL shortFacingBet)) Bottom = 0 \<and>
   stacks (game (processAction Bottom CALL shortFacingBet)) Top = 29 \<and>
   street (processAction Bottom CALL shortFacingBet) = River \<and>
   status (handResult (processAction Bottom CALL shortFacingBet)) = Ended \<and>
   reason (handResult (processAction Bottom CALL shortFacingBet)) = Some ByShowdown"
  by code_simp

lemma short_limp_keeps_option:
  "stacks (game (processAction Top CALL shortLimp)) Top = 0 \<and>
   bets (game (processAction Top CALL shortLimp)) Top = 4 / 5 \<and>
   bets (game (processAction Top CALL shortLimp)) Bottom = 4 / 5 \<and>
   street (processAction Top CALL shortLimp) = Preflop \<and>
   status (handResult (processAction Top CALL shortLimp)) = Playing \<and>
   toAct (processAction Top CALL shortLimp) = Bottom"
  by code_simp

text \<open>
  C6. A seat whose stack is smaller than the amount to call can only commit its stack as
  an all-in call, with the excess of the opponent refunded; a bet or raise from that seat
  is to be treated as that call, and the hand then runs out to the river and the
  showdown. The call does so (\<open>short_call_runs_out\<close>). The bet or raise does not: with
  3 behind and facing 10 the host records a raise to 3 by the short seat (the last
  aggressor is that seat, the last raise size is -7), refunds nothing, stays on the
  flop and passes the turn to the opponent; the page component resolves the same
  target 3 as a raise as well.
\<close>

theorem short_stack_raise_not_reclassified:
  "toAct shortFacingBet = Bottom \<and> status (handResult shortFacingBet) = Playing \<and>
   street shortFacingBet = Flop \<and>
   bets (game shortFacingBet) Top = 10 \<and> bets (game shortFacingBet) Bottom = 0 \<and>
   stacks (game shortFacingBet) Bottom = 3 \<and> stacks (game shortFacingBet) Top = 14 \<and>
   bets (game (processAction Bottom (BET_RAISE_TO 13) shortFacingBet)) Bottom = 3 \<and>
   stacks (game (processAction Bottom (BET_RAISE_TO 13) shortFacingBet)) Bottom = 0 \<and>
   bets (game (processAction Bottom (BET_RAISE_TO 13) shortFacingBet)) Top = 10 \<and>
   stacks (game (processAction Bottom (BET_RAISE_TO 13) shortFacingBet)) Top = 14 \<and>
   lastAggressor (processAction Bottom (BET_RAISE_TO 13) shortFacingBet) = Some Bottom \<and>
   lastRaiseSize (processAction Bottom (BET_RAISE_TO 13) shortFacingBet) = - 7 \<and>
   toAct (processAction Bottom (BET_RAISE_TO 13) shortFacingBet) = Top \<and>
   street (processAction Bottom (BET_RAISE_TO 13) shortFacingBet) = Flop \<and>
   status (handResult (processAction Bottom (BET_RAISE_TO 13) shortFacingBet)) = Playing \<and>
   actBetRaiseTo_target Bottom (game shortFacingBet) (lastRaiseSize shortFacingBet) 13 = RaiseTo 3"
  by code_simp

subsection \<open>The end of the match\<close>

lemma handleShowHand_fields [simp]:
  "game (handleShowHand seat s) = game s"
  "handResult (handleShowHand seat s) = handResult s"
  "gameOver (handleShowHand seat s) = gameOver s"
  "handId (handleShowHand seat s) = handId s"
  "cards (handleShowHand seat s) = cards s"
  by (simp_all add: handleShowHand_def Let_def split: option.splits)

lemma advanceStreet_gameOver: "gameOver u \<Longrightarrow> gameOver (advanceStreet u)"
  using advanceStreet_cases [of u] resolveShowdown_gameOver by auto

lemma processAction_gameOver: "gameOver s \<Longrightarrow> gameOver (processAction seat a s)"
proof (cases a)
  case FOLD
  assume "gameOver s"
  with FOLD show ?thesis by (simp add: processAction_def handleFold_gameOver)
next
  case CHECK
  assume "gameOver s"
  then have "gameOver (advanceStreet (checkMarked seat s))" by (intro advanceStreet_gameOver) simp
  with CHECK \<open>gameOver s\<close> show ?thesis by (simp add: processAction_def handleCheck_eq)
next
  case CALL
  assume "gameOver s"
  then have "gameOver (advanceStreet (callMarked seat s))" by (intro advanceStreet_gameOver) simp
  with CALL \<open>gameOver s\<close> show ?thesis by (simp add: processAction_def handleCall_eq)
next
  case (BET_RAISE_TO x)
  assume "gameOver s"
  with BET_RAISE_TO show ?thesis by (simp add: processAction_def)
qed

lemma hostStep_gameOver: "gameOver s \<Longrightarrow> gameOver (hostStep e s)"
  by (cases e) (simp_all add: processAction_gameOver showHand_def autoNextHand_def)

lemma runEvents_gameOver: "gameOver s \<Longrightarrow> gameOver (runEvents es s)"
proof (induction es arbitrary: s)
  case Nil
  then show ?case by (simp add: runEvents_def)
next
  case (Cons e es)
  from Cons.prems have "gameOver (hostStep e s)" by (rule hostStep_gameOver)
  with Cons.IH [of "hostStep e s"] show ?case by (simp add: runEvents_def)
qed

lemma hostStep_frozen:
  assumes "status (handResult s) = Ended" "busted s"
  shows "status (handResult (hostStep e s)) = Ended \<and> busted (hostStep e s) \<and>
         handId (hostStep e s) = handId s \<and> cards (hostStep e s) = cards s \<and> game (hostStep e s) = game s"
  using assms
  by (cases e) (auto simp add: processAction_def showHand_def autoNextHand_def busted_def)

lemma runEvents_frozen:
  "status (handResult s) = Ended \<Longrightarrow> busted s \<Longrightarrow>
   status (handResult (runEvents es s)) = Ended \<and> busted (runEvents es s) \<and>
   handId (runEvents es s) = handId s \<and> cards (runEvents es s) = cards s \<and> game (runEvents es s) = game s"
proof (induction es arbitrary: s)
  case Nil
  then show ?case by (simp add: runEvents_def)
next
  case (Cons e es)
  from hostStep_frozen [OF Cons.prems, of e] Cons.IH [of "hostStep e s"]
  show ?case by (simp add: runEvents_def)
qed

lemma advanceStreet_ended:
  assumes "status (handResult u) = Playing" "status (handResult (advanceStreet u)) = Ended" "busted (advanceStreet u)"
  shows "gameOver (advanceStreet u)"
  using advanceStreet_cases [of u] assms resolveShowdown_gameOver
  by (auto simp add: busted_def)

lemma hand_end_sets_gameOver:
  assumes "status (handResult s) = Playing"
    and "status (handResult (processAction seat a s)) = Ended"
    and "busted (processAction seat a s)"
  shows "gameOver (processAction seat a s)"
proof (cases "toAct s = seat")
  case False
  with assms show ?thesis by (simp add: processAction_def)
next
  case True
  show ?thesis
  proof (cases a)
    case FOLD
    with True assms show ?thesis by (simp add: processAction_def handleFold_gameOver busted_def)
  next
    case (BET_RAISE_TO x)
    with True assms show ?thesis by (simp add: processAction_def)
  next
    case CHECK
    with True assms advanceStreet_ended [of "checkMarked seat s"] show ?thesis
      by (auto simp add: processAction_def handleCheck_eq split: if_splits)
  next
    case CALL
    with True assms advanceStreet_ended [of "callMarked seat s"] show ?thesis
      by (auto simp add: processAction_def handleCall_eq split: if_splits)
  qed
qed

text \<open>
  C9 (amended). When a hand ends with a stack at or below 0, \<open>gameOver\<close> is true. It
  never becomes false again under any operation of the host: actions, show-hand
  requests, the next-hand timer, and \<open>startHand\<close> itself. From then on no event of the
  host starts a hand: actions are rejected, and the next-hand timer calls \<open>startHand\<close>
  only when both stacks are positive, so the hand result, the hand number, the cards and
  the chips stay as they are. \<open>startHand\<close> itself has no guard.
\<close>

theorem game_over_is_final:
  "(status (handResult s) = Playing \<and> status (handResult (processAction seat a s)) = Ended \<and>
    busted (processAction seat a s) \<longrightarrow> gameOver (processAction seat a s)) \<and>
   (gameOver s \<longrightarrow> gameOver (runEvents es s) \<and> gameOver (startHand deck s)) \<and>
   (status (handResult s) = Ended \<and> busted s \<longrightarrow>
      status (handResult (runEvents es s)) = Ended \<and> handId (runEvents es s) = handId s \<and>
      cards (runEvents es s) = cards s \<and> game (runEvents es s) = game s)"
  using hand_end_sets_gameOver [of s seat a] runEvents_gameOver [of s es] runEvents_frozen [of s es]
  by simp

theorem game_over_is_final_witness:
  "status (handResult (processAction Top CALL bigBlindAllIn)) = Playing \<and>
   status (handResult (processAction Bottom CHECK (processAction Top CALL bigBlindAllIn))) = Ended \<and>
   busted (processAction Bottom CHECK (processAction Top CALL bigBlindAllIn)) \<and>
   gameOver (processAction Bottom CHECK (processAction Top CALL bigBlindAllIn)) \<and>
   gameOver bustedMatch \<and>
   gameOver (runEvents [NextHand exampleDeck, Action Top FOLD, ShowHand Bottom, NextHand tieDeck] bustedMatch) \<and>
   gameOver (startHand exampleDeck bustedMatch) \<and>
   status (handResult bustedMatch) = Ended \<and> busted bustedMatch \<and>
   status (handResult (runEvents [NextHand exampleDeck, Action Top FOLD, ShowHand Bottom, NextHand tieDeck] bustedMatch)) = Ended \<and>
   handId (runEvents [NextHand exampleDeck, Action Top FOLD, ShowHand Bottom, NextHand tieDeck] bustedMatch) = handId bustedMatch"
proof -
  let ?s1 = "processAction Top CALL bigBlindAllIn"
  let ?es = "[NextHand exampleDeck, Action Top FOLD, ShowHand Bottom, NextHand tieDeck]"
  have a: "status (handResult ?s1) = Playing"
    "status (handResult (processAction Bottom CHECK ?s1)) = Ended"
    "busted (processAction Bottom CHECK ?s1)"
    by code_simp+
  have b: "gameOver bustedMatch" "status (handResult bustedMatch) = Ended" "busted bustedMatch"
    by code_simp+
  from game_over_is_final [of ?s1 Bottom CHECK ?es exampleDeck] a
  have r1: "gameOver (processAction Bottom CHECK ?s1)" by blast
  from game_over_is_final [of bustedMatch Top FOLD ?es exampleDeck] b
  have r2: "gameOver (runEvents ?es bustedMatch) \<and> gameOver (startHand exampleDeck bustedMatch) \<and>
            status (handResult (runEvents ?es bustedMatch)) = Ended \<and>
            handId (runEvents ?es bustedMatch) = handId bustedMatch" by blast
  from a b r1 r2 show ?thesis by blast
qed

theorem game_over_is_final_counterexample:
  "status (handResult bustedMatch) = Ended \<and> stacks (game bustedMatch) Bottom \<le> 0 \<and> gameOver bustedMatch \<and>
   status (handResult (startHand exampleDeck bustedMatch)) = Playing \<and>
   stacks (game bustedMatch) Top = 26 \<and>
   stacks (game (startHand exampleDeck bustedMatch)) Top = 25 \<and>
   bets (game (startHand exampleDeck bustedMatch)) Top = 1 \<and>
   stacks (game (startHand exampleDeck bustedMatch)) Bottom = 0 \<and>
   bets (game (startHand exampleDeck bustedMatch)) Bottom = 0 \<and>
   handId (startHand exampleDeck bustedMatch) = handId bustedMatch + 1"
  by code_simp

section \<open>Properties of the hand evaluator\<close>

subsection \<open>Sorting with a comparator\<close>

lemma insort_cmp_mset [simp]: "mset (insort_cmp cmp x ys) = add_mset x (mset ys)"
  by (induction ys) simp_all

lemma js_sort_mset [simp]: "mset (js_sort cmp xs) = mset xs"
  by (induction xs) (simp_all add: js_sort_def)

lemma js_sort_set [simp]: "set (js_sort cmp xs) = set xs"
  using js_sort_mset [of cmp xs] by (metis set_mset_mset)

lemma js_sort_length [simp]: "length (js_sort cmp xs) = length xs"
  using js_sort_mset [of cmp xs] by (metis size_mset)

lemma js_sort_distinct [simp]: "distinct (js_sort cmp xs) = distinct xs"
  using js_sort_mset [of cmp xs] by (metis distinct_count_atmost_1 set_mset_mset)

lemma insort_cmp_sorted:
  assumes tot: "\<And>a b. cmp a b \<le> 0 \<or> cmp b a \<le> 0"
    and tr: "\<And>a b c. cmp a b \<le> 0 \<Longrightarrow> cmp b c \<le> 0 \<Longrightarrow> cmp a c \<le> 0"
  shows "sorted_wrt (\<lambda>a b. cmp a b \<le> 0) ys \<Longrightarrow> sorted_wrt (\<lambda>a b. cmp a b \<le> 0) (insort_cmp cmp x ys)"
proof (induction ys)
  case Nil
  then show ?case by simp
next
  case (Cons y ys)
  show ?case
  proof (cases "cmp x y \<le> 0")
    case True
    with Cons.prems tr show ?thesis by auto
  next
    case False
    with tot have "cmp y x \<le> 0" by blast
    moreover have "set (insort_cmp cmp x ys) = insert x (set ys)"
      using insort_cmp_mset [of cmp x ys] by (metis set_mset_add_mset_insert set_mset_mset)
    ultimately show ?thesis using False Cons by auto
  qed
qed

lemma js_sort_sorted:
  assumes tot: "\<And>a b. cmp a b \<le> 0 \<or> cmp b a \<le> 0"
    and tr: "\<And>a b c. cmp a b \<le> 0 \<Longrightarrow> cmp b c \<le> 0 \<Longrightarrow> cmp a c \<le> 0"
  shows "sorted_wrt (\<lambda>a b. cmp a b \<le> 0) (js_sort cmp xs)"
proof (induction xs)
  case Nil
  then show ?case by (simp add: js_sort_def)
next
  case (Cons x xs)
  have "js_sort cmp (x # xs) = insort_cmp cmp x (js_sort cmp xs)" by (simp add: js_sort_def)
  with Cons insort_cmp_sorted [of cmp "js_sort cmp xs" x] tot tr show ?case by simp
qed

lemma js_sort_desc_sorted: "sorted_wrt (\<ge>) (js_sort desc xs)"
proof -
  have "sorted_wrt (\<lambda>a b. desc a b \<le> 0) (js_sort desc xs)"
    by (rule js_sort_sorted) (auto simp add: desc_def)
  then show ?thesis by (simp add: desc_def)
qed

lemma js_sort_desc_eq: "js_sort desc xs = rev (sort xs)"
proof -
  have "sorted (rev (js_sort desc xs))"
    using js_sort_desc_sorted [of xs] by (simp add: sorted_wrt_rev)
  moreover have "mset (rev (js_sort desc xs)) = mset xs" by simp
  ultimately have "sort xs = rev (js_sort desc xs)" by (metis properties_for_sort)
  then show ?thesis by simp
qed

subsection \<open>The set of an array\<close>

lemma uniq_acc_set: "set (uniq_acc seen xs) = set xs - set seen"
  by (induction xs arbitrary: seen) auto

lemma uniq_acc_distinct: "distinct (uniq_acc seen xs)"
  by (induction xs arbitrary: seen) (auto simp add: uniq_acc_set)

lemma uniq_set [simp]: "set (uniq xs) = set xs"
  by (simp add: uniq_def uniq_acc_set)

lemma uniq_distinct [simp]: "distinct (uniq xs)"
  by (simp add: uniq_def uniq_acc_distinct)

lemma sorted_uniq_desc: "js_sort desc (uniq xs) = rev (sorted_list_of_set (set xs))"
proof -
  have "sort (uniq xs) = sorted_list_of_set (set (uniq xs))"
    by (metis uniq_distinct distinct_remdups_id sorted_list_of_set_sort_remdups)
  then show ?thesis by (simp add: js_sort_desc_eq)
qed

subsection \<open>The loop of getStraightHigh\<close>

lemma sdesc_gap:
  assumes "sorted_wrt (>) (l :: int list)"
  shows "i + k < length l \<Longrightarrow> l ! (i + k) \<le> l ! i - int k"
proof (induction k)
  case 0
  then show ?case by simp
next
  case (Suc k)
  then have "l ! (i + k) \<le> l ! i - int k" by simp
  moreover have "l ! (i + Suc k) < l ! (i + k)"
    using assms Suc.prems by (simp add: sorted_wrt_iff_nth_less)
  ultimately show ?case by simp
qed

lemma sdesc_less:
  assumes "sorted_wrt (>) (l :: int list)" "i < j" "j < length l"
  shows "l ! j < l ! i"
  using assms by (simp add: sorted_wrt_iff_nth_less)

lemma straightAt_steps:
  assumes sd: "sorted_wrt (>) l" and st: "straightAt l i" and k: "k \<le> 4"
  shows "l ! (i + k) = l ! i - int k"
proof -
  from st have len: "i + 4 < length l" and e: "l ! (i + 4) = l ! i - 4" by (simp_all add: straightAt_def)
  have a: "l ! (i + k) \<le> l ! i - int k" using sdesc_gap [OF sd, of i k] len k by simp
  have "l ! (i + k + (4 - k)) \<le> l ! (i + k) - int (4 - k)"
    using sdesc_gap [OF sd, of "i + k" "4 - k"] len k by simp
  with k e have "l ! i - 4 \<le> l ! (i + k) - int (4 - k)" by simp
  with a k show ?thesis by simp
qed

lemma straightLoop_spec:
  "sorted_wrt (>) l \<Longrightarrow> \<forall>x \<in> set l. 1 \<le> x \<Longrightarrow> i < length l \<Longrightarrow> 1 \<le> run \<Longrightarrow> run \<le> 4 \<Longrightarrow> run \<le> i + 1 \<Longrightarrow>
     l ! (i + 1 - run) = l ! i + int run - 1 \<Longrightarrow>
     (\<forall>j. j + run \<le> i \<longrightarrow> \<not> straightAt l j) \<Longrightarrow>
     straightLoop l i run =
       (if \<exists>j. straightAt l j then Some (l ! (LEAST j. straightAt l j)) else None)"
proof (induction l i run rule: straightLoop.induct)
  case (1 vals i run)
  note sd = "1.prems"(1) and pos = "1.prems"(2)
  note p1 = "1.prems"(3) and p2 = "1.prems"(4) and p3 = "1.prems"(5) and p4 = "1.prems"(6)
    and p5 = "1.prems"(7) and p6 = "1.prems"(8)
  let ?s = "i + 1 - run"
  have s_le: "?s \<le> i" using p2 p4 by simp
  show ?case
  proof (cases "i + 1 < length vals")
    case False
    have "\<not> straightAt vals j" for j
    proof
      assume st: "straightAt vals j"
      then have "j + 4 < length vals" by (simp add: straightAt_def)
      with False p1 have "j + 4 \<le> i" by simp
      with p3 have "j + run \<le> i" by simp
      with p6 st show False by blast
    qed
    with False show ?thesis by simp
  next
    case True
    show ?thesis
    proof (cases "vals ! i - 1 = vals ! (i + 1)")
      case adj: True
      show ?thesis
      proof (cases "run + 1 \<ge> 5")
        case r5: True
        with p3 have run4: "run = 4" by simp
        with p4 have i3: "3 \<le> i" by simp
        have start: "vals ! (i - 3) = vals ! i + 3" using p5 run4 i3 by simp
        have st: "straightAt vals (i - 3)"
          using True adj start i3 by (simp add: straightAt_def)
        have least: "(LEAST j. straightAt vals j) = i - 3"
        proof (rule Least_equality)
          show "straightAt vals (i - 3)" by (rule st)
        next
          fix y assume y: "straightAt vals y"
          show "i - 3 \<le> y"
          proof (rule ccontr)
            assume "\<not> i - 3 \<le> y"
            then have "y + run \<le> i" using run4 by simp
            with p6 y show False by blast
          qed
        qed
        have "vals ! (i - 3) \<noteq> 1"
        proof -
          have "vals ! i \<in> set vals" using p1 by simp
          with pos have "1 \<le> vals ! i" by blast
          with start show ?thesis by simp
        qed
        with True adj r5 st least show ?thesis by (auto simp add: Let_def)
      next
        case r5: False
        then have run3: "run \<le> 3" by simp
        have step: "straightLoop vals i run = straightLoop vals (i + 1) (run + 1)"
          using True adj r5 by simp
        have "straightLoop vals (i + 1) (run + 1) =
          (if \<exists>j. straightAt vals j then Some (vals ! (LEAST j. straightAt vals j)) else None)"
        proof (rule "1.IH"(1) [OF True adj r5 sd pos])
          show "i + 1 < length vals" by (rule True)
          show "1 \<le> run + 1" by simp
          show "run + 1 \<le> 4" using run3 by simp
          show "run + 1 \<le> i + 1 + 1" using p4 by simp
          show "vals ! (i + 1 + 1 - (run + 1)) = vals ! (i + 1) + int (run + 1) - 1"
            using p5 adj by simp
          show "\<forall>j. j + (run + 1) \<le> i + 1 \<longrightarrow> \<not> straightAt vals j"
            using p6 by simp
        qed
        with step show ?thesis by simp
      qed
    next
      case nadj: False
      have step: "straightLoop vals i run = straightLoop vals (i + 1) 1"
        using True nadj by simp
      have "straightLoop vals (i + 1) 1 =
          (if \<exists>j. straightAt vals j then Some (vals ! (LEAST j. straightAt vals j)) else None)"
      proof (rule "1.IH"(2) [OF True nadj sd pos])
        show "i + 1 < length vals" by (rule True)
        show "(1::nat) \<le> 1" by simp
        show "(1::nat) \<le> 4" by simp
        show "1 \<le> i + 1 + 1" by simp
        show "vals ! (i + 1 + 1 - 1) = vals ! (i + 1) + int 1 - 1" by simp
        show "\<forall>j. j + 1 \<le> i + 1 \<longrightarrow> \<not> straightAt vals j"
        proof (intro allI impI)
          fix j assume j: "j + 1 \<le> i + 1"
          show "\<not> straightAt vals j"
          proof
            assume st: "straightAt vals j"
            have "\<not> j + run \<le> i" using p6 st by blast
            then have js: "?s \<le> j" by simp
            from st have len: "j + 4 < length vals" by (simp add: straightAt_def)
            show False
            proof (cases "i + 1 \<le> j + 4")
              case True
              from j have "j \<le> i" by simp
              then have "i = j + (i - j)" "i - j \<le> 3" using True by simp_all
              then obtain k where k: "i = j + k" "k \<le> 3" by blast
              have a: "vals ! (j + k) = vals ! j - int k"
                using straightAt_steps [OF sd st, of k] k by simp
              have b: "vals ! (j + (k + 1)) = vals ! j - int (k + 1)"
                using straightAt_steps [OF sd st, of "k + 1"] k by simp
              from a b k have "vals ! i - 1 = vals ! (i + 1)" by (simp add: add.assoc)
              with nadj show False by simp
            next
              case False
              then have "j + 4 \<le> i" by simp
              with js have "run \<ge> 5" by simp
              with p3 show False by simp
            qed
          qed
        qed
      qed
      with step show ?thesis by simp
    qed
  qed
qed

subsection \<open>Straights as sets of ranks\<close>

lemma straightAt_hasStraight:
  assumes sd: "sorted_wrt (>) l" and st: "straightAt l j"
  shows "hasStraight (set l) (l ! j)"
proof -
  have "x \<in> set l" if x: "x \<in> {l ! j - 4 .. l ! j}" for x
  proof -
    from x have "0 \<le> l ! j - x" "l ! j - x \<le> 4" by simp_all
    then obtain k :: nat where k: "int k = l ! j - x" "k \<le> 4"
      by (metis nat_le_iff int_nat_eq of_nat_numeral)
    from straightAt_steps [OF sd st k(2)] k(1) have "l ! (j + k) = x" by simp
    moreover from st k(2) have "j + k < length l" by (simp add: straightAt_def)
    ultimately show ?thesis by (metis nth_mem)
  qed
  then show ?thesis by (auto simp add: hasStraight_def)
qed

lemma sdesc_next:
  assumes sd: "sorted_wrt (>) (l :: int list)" and j: "j < length l" and m: "l ! j - 1 \<in> set l"
  shows "j + 1 < length l \<and> l ! (j + 1) = l ! j - 1"
proof -
  from m obtain n where n: "n < length l" "l ! n = l ! j - 1" by (metis in_set_conv_nth)
  have "j < n"
  proof (rule ccontr)
    assume "\<not> j < n"
    then have "n = j \<or> n < j" by auto
    then show False
    proof
      assume "n = j" with n show False by simp
    next
      assume "n < j"
      with sdesc_less [OF sd this j] n show False by simp
    qed
  qed
  then have len: "j + 1 < length l" using n by simp
  have a: "l ! (j + 1) \<le> l ! j - 1" using sdesc_gap [OF sd, of j 1] len by simp
  have "l ! n \<le> l ! (j + 1)"
  proof (cases "n = j + 1")
    case True then show ?thesis by simp
  next
    case False
    with \<open>j < n\<close> have "j + 1 < n" by simp
    with sdesc_less [OF sd this n(1)] show ?thesis by simp
  qed
  with a n len show ?thesis by simp
qed

lemma hasStraight_straightAt:
  assumes sd: "sorted_wrt (>) l" and hs: "hasStraight (set l) h"
  shows "\<exists>j. straightAt l j \<and> l ! j = h"
proof -
  from hs have mem: "\<And>x. h - 4 \<le> x \<Longrightarrow> x \<le> h \<Longrightarrow> x \<in> set l" by (auto simp add: hasStraight_def)
  from mem [of h] have "h \<in> set l" by simp
  then obtain j where j: "j < length l" "l ! j = h" by (auto simp add: in_set_conv_nth)
  have steps: "k \<le> 4 \<Longrightarrow> j + k < length l \<and> l ! (j + k) = h - int k" for k
  proof (induction k)
    case 0
    with j show ?case by simp
  next
    case (Suc k)
    then have ih: "j + k < length l" "l ! (j + k) = h - int k" by simp_all
    have "l ! (j + k) - 1 \<in> set l" using mem [of "h - int k - 1"] ih(2) Suc.prems by simp
    from sdesc_next [OF sd ih(1) this] ih(2) show ?case by simp
  qed
  from steps [of 4] j show ?thesis by (auto simp add: straightAt_def)
qed

lemma hasStraight_finite: "finite V \<Longrightarrow> finite {h. hasStraight V h}"
proof -
  assume "finite V"
  moreover have "{h. hasStraight V h} \<subseteq> V" by (auto simp add: hasStraight_def)
  ultimately show ?thesis by (rule rev_finite_subset)
qed

lemma least_straight_is_max:
  assumes sd: "sorted_wrt (>) l" and ex: "\<exists>j. straightAt l j"
  shows "l ! (LEAST j. straightAt l j) = Max {h. hasStraight (set l) h}"
proof -
  let ?j = "LEAST j. straightAt l j"
  from ex have st: "straightAt l ?j" by (metis LeastI)
  have fin: "finite {h. hasStraight (set l) h}" by (simp add: hasStraight_finite)
  show ?thesis
  proof (rule sym, rule Max_eqI [OF fin])
    show "l ! ?j \<in> {h. hasStraight (set l) h}"
      using straightAt_hasStraight [OF sd st] by simp
  next
    fix h assume "h \<in> {h. hasStraight (set l) h}"
    then obtain j where j: "straightAt l j" "l ! j = h"
      using hasStraight_straightAt [OF sd] by blast
    then have "?j \<le> j" by (simp add: Least_le)
    moreover from j have "j < length l" by (simp add: straightAt_def)
    ultimately show "h \<le> l ! ?j"
      using sdesc_less [OF sd, of ?j j] j(2) by (cases "?j = j") auto
  qed
qed

lemma straightLoop_set:
  assumes sd: "sorted_wrt (>) l" and pos: "\<forall>x \<in> set l. 1 \<le> x"
  shows "straightLoop l 0 1 =
     (if \<exists>h. hasStraight (set l) h then Some (Max {h. hasStraight (set l) h}) else None)"
proof (cases "l = []")
  case True
  then show ?thesis by (simp add: hasStraight_def)
next
  case False
  have "straightLoop l 0 1 = (if \<exists>j. straightAt l j then Some (l ! (LEAST j. straightAt l j)) else None)"
    by (rule straightLoop_spec [OF sd pos]) (use False in simp_all)
  moreover have "(\<exists>j. straightAt l j) = (\<exists>h. hasStraight (set l) h)"
    using straightAt_hasStraight [OF sd] hasStraight_straightAt [OF sd] by blast
  ultimately show ?thesis
    using least_straight_is_max [OF sd] by simp
qed

lemma getStraightHigh_spec:
  assumes fin: "finite V" and rng: "V \<subseteq> {2..14}"
  shows "getStraightHigh (rev (sorted_list_of_set V)) = straightHighOf V"
proof -
  let ?U = "rev (sorted_list_of_set V)"
  have sdU: "sorted_wrt (>) ?U"
  proof -
    have "sorted_wrt (<) (sorted_list_of_set V)" by (simp add: strict_sorted_iff)
    then show ?thesis by (simp add: sorted_wrt_rev)
  qed
  have setU: "set ?U = V" using fin by simp
  have hd14: "(?U \<noteq> [] \<and> hd ?U = 14) = (14 \<in> V)"
  proof
    assume a: "?U \<noteq> [] \<and> hd ?U = 14"
    then have "hd ?U \<in> set ?U" by (intro hd_in_set) simp
    with a setU show "14 \<in> V" by simp
  next
    assume m: "14 \<in> V"
    with setU have mem: "14 \<in> set ?U" by simp
    then have ne: "?U \<noteq> []" by auto
    from mem obtain n where n: "n < length ?U" "?U ! n = 14" by (metis in_set_conv_nth)
    have h0: "hd ?U = ?U ! 0" using ne by (simp add: hd_conv_nth)
    from ne have "0 < length ?U" by (rule iffD2 [OF length_greater_0_conv])
    then have "?U ! 0 \<in> set ?U" by (rule nth_mem)
    with setU rng have le: "?U ! 0 \<le> 14" by auto
    have "?U ! 0 = 14"
    proof (cases "n = 0")
      case True with n show ?thesis by simp
    next
      case False
      then have "0 < n" by simp
      from sdesc_less [OF sdU this n(1)] n(2) le show ?thesis by simp
    qed
    with h0 ne show "?U \<noteq> [] \<and> hd ?U = 14" by simp
  qed
  let ?vals = "if 14 \<in> V then ?U @ [1] else ?U"
  have g: "getStraightHigh ?U = straightLoop ?vals 0 1"
    using hd14 by (simp add: getStraightHigh_def Let_def)
  have sd: "sorted_wrt (>) ?vals"
    using sdU rng setU by (auto simp add: sorted_wrt_append)
  have st: "set ?vals = wheelSet V" using setU by (auto simp add: wheelSet_def)
  have pos: "\<forall>x \<in> set ?vals. 1 \<le> x" using rng st by (auto simp add: wheelSet_def split: if_splits)
  from straightLoop_set [OF sd pos] g st show ?thesis
    by (simp add: straightHighOf_def)
qed

subsection \<open>Ranks and counts\<close>

lemma card_value_range: "card_value c \<in> {2..14}"
  by (cases "rank c") (simp_all add: card_value_def)

lemma valsOf_range: "set (valsOf X) \<subseteq> {2..14}"
  using card_value_range by (auto simp add: valsOf_def)

lemma uniqueDescOf_eq: "uniqueDescOf X = rev (sorted_list_of_set (set (valsOf X)))"
  by (simp add: uniqueDescOf_def sorted_uniq_desc valsOf_def)

lemma uniqueDescOf_set [simp]: "set (uniqueDescOf X) = set (valsOf X)"
  by (simp add: uniqueDescOf_eq)

lemma uniqueDescOf_sdesc: "sorted_wrt (>) (uniqueDescOf X)"
proof -
  have "sorted_wrt (<) (sorted_list_of_set (set (valsOf X)))" by (simp add: strict_sorted_iff)
  then show ?thesis by (simp add: uniqueDescOf_eq sorted_wrt_rev)
qed

lemma cnt_pos_iff: "0 < cnt X v \<longleftrightarrow> v \<in> set (valsOf X)"
  by (auto simp add: cnt_def valsOf_def filter_empty_conv)

subsection \<open>The map of counts\<close>

lemma counts_bump_keys: "fst ` set (counts_bump v m) = insert v (fst ` set m)"
proof (induction v m rule: counts_bump.induct)
  case (1 v)
  then show ?case by simp
next
  case (2 v k c m)
  then show ?case by (cases "k = v") auto
qed

lemma counts_bump_distinct: "distinct (map fst m) \<Longrightarrow> distinct (map fst (counts_bump v m))"
proof (induction m)
  case Nil
  then show ?case by simp
next
  case (Cons a m)
  obtain k c where a: "a = (k, c)" by (cases a)
  show ?case
  proof (cases "k = v")
    case True
    with a Cons.prems show ?thesis by simp
  next
    case False
    with a Cons have "distinct (map fst (counts_bump v m))" by simp
    moreover have "k \<notin> fst ` set (counts_bump v m)"
      using Cons.prems a False by (simp add: counts_bump_keys)
    ultimately show ?thesis using a False by simp
  qed
qed

lemma counts_bump_cget: "cget (counts_bump v m) w = (if w = v then cget m v + 1 else cget m w)"
  by (induction m) auto

lemma cget_zero: "v \<notin> fst ` set m \<Longrightarrow> cget m v = 0"
  by (induction m) auto

lemma cget_mem: "distinct (map fst m) \<Longrightarrow> (v, c) \<in> set m \<Longrightarrow> cget m v = c"
  by (induction m) (auto simp add: rev_image_eqI)

lemma counts_fold:
  "distinct (map fst m) \<Longrightarrow>
   distinct (map fst (foldl (\<lambda>m c. counts_bump (card_value c) m) m X)) \<and>
   fst ` set (foldl (\<lambda>m c. counts_bump (card_value c) m) m X) = fst ` set m \<union> set (valsOf X) \<and>
   (\<forall>w. cget (foldl (\<lambda>m c. counts_bump (card_value c) m) m X) w = cget m w + cnt X w)"
proof (induction X arbitrary: m)
  case Nil
  then show ?case by (simp add: valsOf_def cnt_def)
next
  case (Cons x X)
  let ?m = "counts_bump (card_value x) m"
  have d: "distinct (map fst ?m)" using Cons.prems by (rule counts_bump_distinct)
  from Cons.IH [OF d] show ?case
    by (auto simp add: counts_bump_keys counts_bump_cget valsOf_def cnt_def)
qed

lemma card_counts_props:
  "distinct (map fst (card_counts X))"
  "fst ` set (card_counts X) = set (valsOf X)"
  "cget (card_counts X) w = cnt X w"
  using counts_fold [of "[]" X] by (simp_all add: card_counts_def)

lemma card_counts_mem: "(v, c) \<in> set (card_counts X) \<longleftrightarrow> v \<in> set (valsOf X) \<and> c = cnt X v"
proof
  assume m: "(v, c) \<in> set (card_counts X)"
  then have "v \<in> fst ` set (card_counts X)" by (metis fst_conv image_eqI)
  moreover from m have "cget (card_counts X) v = c"
    using card_counts_props(1) by (rule cget_mem [rotated])
  ultimately show "v \<in> set (valsOf X) \<and> c = cnt X v"
    by (simp add: card_counts_props)
next
  assume a: "v \<in> set (valsOf X) \<and> c = cnt X v"
  then have "v \<in> fst ` set (card_counts X)" by (simp add: card_counts_props)
  then obtain c' where c': "(v, c') \<in> set (card_counts X)" by auto
  then have "cget (card_counts X) v = c'"
    using card_counts_props(1) by (rule cget_mem [rotated])
  with a c' show "(v, c) \<in> set (card_counts X)" by (simp add: card_counts_props)
qed

subsection \<open>The sorted groups\<close>

lemma group_cmp_le: "(group_cmp a b \<le> 0) = gle a b"
  by (auto simp add: group_cmp_def gle_def)

lemma groupsOf_mem: "(v, c) \<in> set (groupsOf X) \<longleftrightarrow> v \<in> set (valsOf X) \<and> c = cnt X v"
  by (simp add: groupsOf_def card_counts_mem)

lemma groupsOf_sorted: "sorted_wrt gle (groupsOf X)"
proof -
  have "sorted_wrt (\<lambda>a b. group_cmp a b \<le> 0) (js_sort group_cmp (card_counts X))"
    by (rule js_sort_sorted) (auto simp add: group_cmp_le gle_def)
  then show ?thesis by (simp add: groupsOf_def group_cmp_le)
qed

lemma groupsOf_distinct: "distinct (map fst (groupsOf X))"
proof -
  have "mset (map fst (groupsOf X)) = mset (map fst (card_counts X))"
    by (simp add: groupsOf_def)
  then show ?thesis using card_counts_props(1) [of X] by (metis mset_eq_imp_distinct_iff)
qed

lemma groupsOf_Nil: "groupsOf X = [] \<longleftrightarrow> X = []"
proof -
  have "fst ` set (groupsOf X) = set (valsOf X)"
    by (simp add: groupsOf_def card_counts_props)
  then have "(set (groupsOf X) = {}) = (set (valsOf X) = {})" by (metis image_is_empty)
  then show ?thesis by (simp add: valsOf_def)
qed

text \<open>The first group has the greatest count, and the greatest value among those.\<close>

lemma groupsOf_hd:
  assumes "groupsOf X = g # gs"
  shows "fst g \<in> set (valsOf X)" "snd g = cnt X (fst g)"
    "\<And>v. v \<in> set (valsOf X) \<Longrightarrow> cnt X v < snd g \<or> (cnt X v = snd g \<and> v \<le> fst g)"
proof -
  have m: "g \<in> set (groupsOf X)" using assms by simp
  then show "fst g \<in> set (valsOf X)" "snd g = cnt X (fst g)"
    using groupsOf_mem [of "fst g" "snd g" X] by simp_all
  fix v assume "v \<in> set (valsOf X)"
  then have "(v, cnt X v) \<in> set (groupsOf X)" by (simp add: groupsOf_mem)
  with assms have "(v, cnt X v) = g \<or> (v, cnt X v) \<in> set gs" by simp
  then show "cnt X v < snd g \<or> (cnt X v = snd g \<and> v \<le> fst g)"
  proof
    assume "(v, cnt X v) = g" then show ?thesis by auto
  next
    assume "(v, cnt X v) \<in> set gs"
    with groupsOf_sorted [of X] assms have "gle g (v, cnt X v)" by simp
    then show ?thesis by (simp add: gle_def)
  qed
qed

lemma find_sorted:
  assumes "sorted_wrt R l"
  shows "List.find P l = Some x \<Longrightarrow> x \<in> set l \<and> P x \<and> (\<forall>y \<in> set l. P y \<longrightarrow> y = x \<or> R x y)"
  using assms
proof (induction l)
  case Nil
  then show ?case by simp
next
  case (Cons a l)
  show ?case
  proof (cases "P a")
    case True
    with Cons.prems show ?thesis by auto
  next
    case False
    with Cons show ?thesis by auto
  qed
qed

lemma find_None: "List.find P l = None \<longleftrightarrow> (\<forall>y \<in> set l. \<not> P y)"
  by (auto simp add: find_None_iff)

subsection \<open>Suits and the flush scan\<close>

lemma suits_push_keys: "fst ` set (suits_push s v m) = insert s (fst ` set m)"
proof (induction s v m rule: suits_push.induct)
  case (1 s v)
  then show ?case by simp
next
  case (2 s v k arr m)
  then show ?case by (cases "k = s") auto
qed

lemma suits_push_distinct: "distinct (map fst m) \<Longrightarrow> distinct (map fst (suits_push s v m))"
proof (induction s v m rule: suits_push.induct)
  case (1 s v)
  then show ?case by simp
next
  case (2 s v k arr m)
  show ?case
  proof (cases "k = s")
    case True
    with "2.prems" show ?thesis by simp
  next
    case False
    with 2 have "distinct (map fst (suits_push s v m))" by simp
    moreover have "k \<notin> fst ` set (suits_push s v m)"
      using "2.prems" False by (simp add: suits_push_keys)
    ultimately show ?thesis using False by simp
  qed
qed

lemma suits_push_sget: "sget (suits_push s v m) t = (if t = s then sget m s @ [v] else sget m t)"
  by (induction s v m rule: suits_push.induct) auto

lemma sget_mem: "distinct (map fst m) \<Longrightarrow> (s, arr) \<in> set m \<Longrightarrow> sget m s = arr"
  by (induction m) (auto simp add: rev_image_eqI)

lemma suits_fold:
  "distinct (map fst m) \<Longrightarrow>
   distinct (map fst (foldl (\<lambda>m c. suits_push (suit c) (card_value c) m) m X)) \<and>
   (\<forall>t. sget (foldl (\<lambda>m c. suits_push (suit c) (card_value c) m) m X) t = sget m t @ suitValsOf X t)"
proof (induction X arbitrary: m)
  case Nil
  then show ?case by (simp add: suitValsOf_def)
next
  case (Cons x X)
  let ?m = "suits_push (suit x) (card_value x) m"
  have d: "distinct (map fst ?m)" using Cons.prems by (rule suits_push_distinct)
  from Cons.IH [OF d] show ?case
    by (auto simp add: suits_push_sget suitValsOf_def)
qed

lemma card_suits_props:
  "distinct (map fst (card_suits X))"
  "sget (card_suits X) t = suitValsOf X t"
  using suits_fold [of "[]" X] by (simp_all add: card_suits_def)

lemma card_suits_mem: "(s, arr) \<in> set (card_suits X) \<Longrightarrow> arr = suitValsOf X s"
  using sget_mem [OF card_suits_props(1)] card_suits_props(2) by metis

lemma sget_nonempty_mem: "sget m s \<noteq> [] \<Longrightarrow> (s, sget m s) \<in> set m"
  by (induction m) (auto split: if_splits)

lemma flush_short: "\<forall>e \<in> set es. length (snd e) < 5 \<Longrightarrow> foldl flush_step acc es = acc"
  by (induction es arbitrary: acc) (simp_all add: flush_step_def)

lemma flush_unique:
  assumes "\<forall>e \<in> set pre. length (snd e) < 5" "\<forall>e \<in> set post. length (snd e) < 5" "5 \<le> length vs"
  shows "flush_scan (pre @ (s, vs) # post) = (Some s, js_sort desc vs)"
proof -
  have "foldl flush_step (None, []) pre = (None, [])" using assms(1) by (rule flush_short)
  moreover have "flush_step (None, []) (s, vs) = (Some s, js_sort desc vs)"
    using assms(3) by (simp add: flush_step_def Let_def)
  moreover have "foldl flush_step (Some s, js_sort desc vs) post = (Some s, js_sort desc vs)"
    using assms(2) by (rule flush_short)
  ultimately show ?thesis by (simp add: flush_scan_def)
qed

lemma two_suits: "s \<noteq> t \<Longrightarrow> length (suitValsOf X s) + length (suitValsOf X t) \<le> length X"
  by (induction X) (auto simp add: suitValsOf_def)

lemma flush_none:
  assumes "\<forall>s. length (suitValsOf X s) < 5"
  shows "flush_scan (card_suits X) = (None, [])"
proof -
  have "\<forall>e \<in> set (card_suits X). length (snd e) < 5"
  proof
    fix e assume "e \<in> set (card_suits X)"
    then have "(fst e, snd e) \<in> set (card_suits X)" by simp
    then have "snd e = suitValsOf X (fst e)" by (rule card_suits_mem)
    with assms show "length (snd e) < 5" by simp
  qed
  then show ?thesis unfolding flush_scan_def by (rule flush_short)
qed

lemma flush_some:
  assumes len: "length X \<le> 9" and five: "5 \<le> length (suitValsOf X s)"
  shows "flush_scan (card_suits X) = (Some s, js_sort desc (suitValsOf X s))"
proof -
  let ?vs = "suitValsOf X s"
  from five have "sget (card_suits X) s \<noteq> []" by (auto simp add: card_suits_props)
  then have "(s, ?vs) \<in> set (card_suits X)"
    using sget_nonempty_mem [of "card_suits X" s] by (simp add: card_suits_props)
  then obtain pre post where sp: "card_suits X = pre @ (s, ?vs) # post"
    by (meson split_list)
  have short: "length (snd e) < 5" if e: "e \<in> set pre \<union> set post" for e
  proof -
    from e sp have m: "(fst e, snd e) \<in> set (card_suits X)" by auto
    then have v: "snd e = suitValsOf X (fst e)" by (rule card_suits_mem)
    have "fst e \<noteq> s"
    proof
      assume "fst e = s"
      with e have "s \<in> fst ` (set pre \<union> set post)" by (metis image_eqI)
      moreover have "distinct (map fst (pre @ (s, ?vs) # post))"
        using card_suits_props(1) [of X] sp by simp
      ultimately show False by auto
    qed
    from two_suits [OF this, of X] v five len show ?thesis by simp
  qed
  show ?thesis unfolding sp by (rule flush_unique) (use short five in auto)
qed

subsection \<open>The branches of evaluate7\<close>

lemma evaluate7_chain:
  assumes "X \<noteq> []"
  shows "evaluate7 X =
    (if sfOf X \<noteq> None then [8, the (sfOf X)]
     else if c0Of X = 4 then [7, v0Of X, find_or_zero (\<lambda>v. v \<noteq> v0Of X) (uniqueDescOf X)]
     else if c0Of X = 3 \<and> pairCandOf X \<noteq> None then [6, v0Of X, fst (the (pairCandOf X))]
     else if flushSuitOf X \<noteq> None then 5 # take 5 (flushValsOf X)
     else if shOf X \<noteq> None then [4, the (shOf X)]
     else if c0Of X = 3 then 3 # v0Of X # take 2 (filter (\<lambda>v. v \<noteq> v0Of X) (uniqueDescOf X))
     else if c0Of X = 2 \<and> length (pairsOf X) \<ge> 2 then
       [2, pairsOf X ! 0, pairsOf X ! 1,
        find_or_zero (\<lambda>v. v \<noteq> pairsOf X ! 0 \<and> v \<noteq> pairsOf X ! 1) (uniqueDescOf X)]
     else if c0Of X = 2 then 1 # v0Of X # take 3 (filter (\<lambda>v. v \<noteq> v0Of X) (uniqueDescOf X))
     else 0 # take 5 (uniqueDescOf X))"
proof -
  obtain g gs where g: "js_sort group_cmp (card_counts X) = g # gs"
    using assms groupsOf_Nil [of X] by (cases "groupsOf X") (auto simp add: groupsOf_def)
  show ?thesis
    unfolding evaluate7_def Let_def v0Of_def c0Of_def pairCandOf_def pairsOf_def flushSuitOf_def
      flushValsOf_def sfOf_def shOf_def groupsOf_def uniqueDescOf_def g
    by (simp split del: if_split cong: if_cong)
qed

lemma cnt_zero: "v \<notin> set (valsOf X) \<Longrightarrow> cnt X v = 0"
  using cnt_pos_iff [of X v] by simp

lemma top_props:
  assumes "X \<noteq> []"
  shows "v0Of X \<in> set (valsOf X)" "cnt X (v0Of X) = c0Of X" "0 < c0Of X"
    "\<And>v. cnt X v \<le> c0Of X" "\<And>v. cnt X v = c0Of X \<Longrightarrow> v \<le> v0Of X"
proof -
  obtain g gs where g: "groupsOf X = g # gs"
    using assms groupsOf_Nil [of X] by (cases "groupsOf X") auto
  note h = groupsOf_hd [OF g]
  have v0: "v0Of X = fst g" "c0Of X = snd g" by (simp_all add: v0Of_def c0Of_def g)
  show 1: "v0Of X \<in> set (valsOf X)" using h(1) v0 by simp
  show 2: "cnt X (v0Of X) = c0Of X" using h(2) v0 by simp
  show 3: "0 < c0Of X" using 1 2 cnt_pos_iff [of X "v0Of X"] by simp
  show "cnt X v \<le> c0Of X" for v
  proof (cases "v \<in> set (valsOf X)")
    case True
    then show ?thesis using h(3) [of v] v0 by auto
  next
    case False
    then show ?thesis by (simp add: cnt_zero)
  qed
  show "v \<le> v0Of X" if "cnt X v = c0Of X" for v
  proof -
    from that 3 have "v \<in> set (valsOf X)" using cnt_pos_iff [of X v] by simp
    then show ?thesis using h(3) [of v] v0 that by auto
  qed
qed

lemma pairCand_None: "pairCandOf X = None \<longleftrightarrow> (\<forall>v. v \<noteq> v0Of X \<longrightarrow> cnt X v < 2)"
proof -
  have "pairCandOf X = None \<longleftrightarrow> (\<forall>g \<in> set (groupsOf X). \<not> (fst g \<noteq> v0Of X \<and> 2 \<le> snd g))"
    by (simp add: pairCandOf_def find_None)
  also have "\<dots> \<longleftrightarrow> (\<forall>v. v \<noteq> v0Of X \<longrightarrow> cnt X v < 2)"
  proof
    assume a: "\<forall>g \<in> set (groupsOf X). \<not> (fst g \<noteq> v0Of X \<and> 2 \<le> snd g)"
    show "\<forall>v. v \<noteq> v0Of X \<longrightarrow> cnt X v < 2"
    proof (intro allI impI)
      fix v assume ne: "v \<noteq> v0Of X"
      show "cnt X v < 2"
      proof (cases "v \<in> set (valsOf X)")
        case True
        then have "(v, cnt X v) \<in> set (groupsOf X)" by (simp add: groupsOf_mem)
        with a ne show ?thesis by fastforce
      next
        case False
        then show ?thesis by (simp add: cnt_zero)
      qed
    qed
  next
    assume a: "\<forall>v. v \<noteq> v0Of X \<longrightarrow> cnt X v < 2"
    show "\<forall>g \<in> set (groupsOf X). \<not> (fst g \<noteq> v0Of X \<and> 2 \<le> snd g)"
    proof
      fix g assume "g \<in> set (groupsOf X)"
      then have "snd g = cnt X (fst g)" using groupsOf_mem [of "fst g" "snd g" X] by simp
      with a show "\<not> (fst g \<noteq> v0Of X \<and> 2 \<le> snd g)" by (auto simp add: not_le)
    qed
  qed
  finally show ?thesis .
qed

lemma pairCand_Some:
  assumes "pairCandOf X = Some g"
  shows "fst g \<noteq> v0Of X" "snd g = cnt X (fst g)" "2 \<le> snd g"
    "\<And>v. v \<noteq> v0Of X \<Longrightarrow> 2 \<le> cnt X v \<Longrightarrow> cnt X v < snd g \<or> (cnt X v = snd g \<and> v \<le> fst g)"
proof -
  from find_sorted [OF groupsOf_sorted assms [unfolded pairCandOf_def]]
  have m: "g \<in> set (groupsOf X)" and p: "fst g \<noteq> v0Of X" "2 \<le> snd g"
    and f: "\<forall>y \<in> set (groupsOf X). fst y \<noteq> v0Of X \<and> 2 \<le> snd y \<longrightarrow> y = g \<or> gle g y"
    by simp_all
  show "fst g \<noteq> v0Of X" "2 \<le> snd g" by fact+
  show "snd g = cnt X (fst g)" using m groupsOf_mem [of "fst g" "snd g" X] by simp
  fix v assume v: "v \<noteq> v0Of X" "2 \<le> cnt X v"
  then have "v \<in> set (valsOf X)" using cnt_pos_iff [of X v] by simp
  then have "(v, cnt X v) \<in> set (groupsOf X)" by (simp add: groupsOf_mem)
  with f v have "(v, cnt X v) = g \<or> gle g (v, cnt X v)" by auto
  then show "cnt X v < snd g \<or> (cnt X v = snd g \<and> v \<le> fst g)"
    by (auto simp add: gle_def)
qed

lemma sdesc_of_distinct: "sorted_wrt (\<ge>) (l :: int list) \<Longrightarrow> distinct l \<Longrightarrow> sorted_wrt (>) l"
  by (induction l) (auto simp add: less_le)

lemma js_sort_desc_sdesc: "distinct xs \<Longrightarrow> sorted_wrt (>) (js_sort desc xs)"
  by (rule sdesc_of_distinct) (simp_all add: js_sort_desc_sorted)

lemma pairsOf_props: "sorted_wrt (>) (pairsOf X)" "set (pairsOf X) = {v. cnt X v = 2}"
proof -
  have "distinct (map fst (filter (\<lambda>g. snd g = 2) (groupsOf X)))"
    using groupsOf_distinct [of X] by (rule distinct_map_filter)
  then show "sorted_wrt (>) (pairsOf X)" unfolding pairsOf_def by (rule js_sort_desc_sdesc)
  show "set (pairsOf X) = {v. cnt X v = 2}"
  proof (intro set_eqI iffI)
    fix v assume "v \<in> set (pairsOf X)"
    then obtain g where "g \<in> set (groupsOf X)" "snd g = 2" "fst g = v"
      by (auto simp add: pairsOf_def)
    then have "(v, 2) \<in> set (groupsOf X)" by (metis prod.collapse)
    then show "v \<in> {v. cnt X v = 2}" by (simp add: groupsOf_mem)
  next
    fix v assume "v \<in> {v. cnt X v = 2}"
    then have c: "cnt X v = 2" by simp
    then have "v \<in> set (valsOf X)" using cnt_pos_iff [of X v] by simp
    with c have "(v, 2) \<in> set (groupsOf X)" by (simp add: groupsOf_mem)
    then have "(v, 2) \<in> set (filter (\<lambda>g. snd g = 2) (groupsOf X))" by simp
    then have "fst (v, 2 :: nat) \<in> fst ` set (filter (\<lambda>g. snd g = 2) (groupsOf X))" by (rule imageI)
    then show "v \<in> set (pairsOf X)" by (simp add: pairsOf_def)
  qed
qed

subsection \<open>Flush and straights\<close>

lemma flush_cases:
  assumes "length X \<le> 9"
  shows "(flushSuitOf X = None \<and> flushValsOf X = [] \<and> (\<forall>s. length (suitValsOf X s) < 5)) \<or>
         (\<exists>s. flushSuitOf X = Some s \<and> 5 \<le> length (suitValsOf X s) \<and>
              flushValsOf X = js_sort desc (suitValsOf X s))"
proof (cases "\<forall>s. length (suitValsOf X s) < 5")
  case True
  then show ?thesis using flush_none [of X] by (simp add: flushSuitOf_def flushValsOf_def)
next
  case False
  then obtain s where "5 \<le> length (suitValsOf X s)" by (auto simp add: not_less)
  from flush_some [OF assms this] this show ?thesis
    by (auto simp add: flushSuitOf_def flushValsOf_def)
qed

lemma flush_of_suit:
  assumes "length X \<le> 9" "5 \<le> length (suitValsOf X s)"
  shows "flushSuitOf X = Some s" "flushValsOf X = js_sort desc (suitValsOf X s)"
  using flush_some [OF assms] by (simp_all add: flushSuitOf_def flushValsOf_def)

lemma suitValsOf_range: "set (suitValsOf X s) \<subseteq> {2..14}"
  using card_value_range by (auto simp add: suitValsOf_def)

lemma suitValsOf_sub: "set (suitValsOf X s) \<subseteq> set (valsOf X)"
  by (auto simp add: suitValsOf_def valsOf_def)

lemma sfOf_flush:
  assumes "flushSuitOf X = Some s" "flushValsOf X = js_sort desc (suitValsOf X s)"
  shows "sfOf X = straightHighOf (set (suitValsOf X s))"
  using assms by (simp add: sfOf_def sorted_uniq_desc getStraightHigh_spec suitValsOf_range)

lemma sfOf_none: "flushSuitOf X = None \<Longrightarrow> sfOf X = None"
  by (simp add: sfOf_def)

lemma shOf_eq: "shOf X = straightHighOf (set (valsOf X))"
  by (simp add: shOf_def uniqueDescOf_eq getStraightHigh_spec valsOf_range)

lemma wheelSet_finite: "finite V \<Longrightarrow> finite (wheelSet V)"
  by (simp add: wheelSet_def)

lemma straightHighOf_Some:
  assumes "finite V" "straightHighOf V = Some h"
  shows "hasStraight (wheelSet V) h"
proof -
  have fin: "finite {h. hasStraight (wheelSet V) h}"
    using assms(1) by (simp add: hasStraight_finite wheelSet_finite)
  from assms(2) have ex: "{h. hasStraight (wheelSet V) h} \<noteq> {}" and h: "h = Max {h. hasStraight (wheelSet V) h}"
    by (auto simp add: straightHighOf_def split: if_splits)
  from Max_in [OF fin ex] h show ?thesis by simp
qed

lemma straightHighOf_ge:
  assumes "finite V" "hasStraight (wheelSet V) h"
  shows "\<exists>h'. straightHighOf V = Some h' \<and> h \<le> h'"
proof -
  have fin: "finite {h. hasStraight (wheelSet V) h}"
    using assms(1) by (simp add: hasStraight_finite wheelSet_finite)
  have "h \<le> Max {h. hasStraight (wheelSet V) h}" using fin assms(2) by (simp add: Max_ge)
  with assms(2) show ?thesis by (auto simp add: straightHighOf_def)
qed

subsection \<open>Distinct cards\<close>

lemma rank_value_inj: "RANK_TO_VALUE r = RANK_TO_VALUE r' \<Longrightarrow> r = r'"
  by (cases r; cases r') simp_all

lemma card_eqI: "card_value c = card_value d \<Longrightarrow> suit c = suit d \<Longrightarrow> c = (d :: card)"
  by (simp add: card_value_def rank_value_inj)

lemma distinct_suitVals: "distinct X \<Longrightarrow> distinct (suitValsOf X s)"
  unfolding suitValsOf_def
  by (rule iffD2 [OF distinct_map]) (auto simp add: inj_on_def card_eqI)

lemma suit_UNIV: "(UNIV :: card_suit set) = {Spades, Hearts, Diamonds, Clubs}"
proof -
  have "x \<in> {Spades, Hearts, Diamonds, Clubs}" for x :: card_suit by (cases x) simp_all
  then show ?thesis by blast
qed

lemma cnt_le_4:
  assumes "distinct X"
  shows "cnt X v \<le> 4"
proof -
  let ?F = "filter (\<lambda>c. card_value c = v) X"
  have d: "distinct (map suit ?F)"
    by (rule iffD2 [OF distinct_map]) (use assms in \<open>auto simp add: inj_on_def card_eqI\<close>)
  have "length ?F = length (map suit ?F)" by simp
  also have "\<dots> = card (set (map suit ?F))" by (rule distinct_card [OF d, symmetric])
  also have "\<dots> \<le> card (UNIV :: card_suit set)"
  proof (rule card_mono)
    show "finite (UNIV :: card_suit set)" by (simp add: suit_UNIV)
    show "set (map suit ?F) \<subseteq> UNIV" by (rule subset_UNIV)
  qed
  also have "\<dots> = 4" by (simp add: suit_UNIV)
  finally show ?thesis by (simp only: cnt_def)
qed

lemma filter_disj_length:
  "(\<And>x. \<not> (P x \<and> Q x)) \<Longrightarrow> length (filter P X) + length (filter Q X) = length (filter (\<lambda>x. P x \<or> Q x) X)"
  by (induction X) auto

lemma cnt_sum_eq:
  "distinct vs \<Longrightarrow> sum_list (map (cnt X) vs) = length (filter (\<lambda>c. card_value c \<in> set vs) X)"
proof (induction vs)
  case Nil
  then show ?case by simp
next
  case (Cons a vs)
  then have a: "a \<notin> set vs" by simp
  have "cnt X a + length (filter (\<lambda>c. card_value c \<in> set vs) X) =
        length (filter (\<lambda>c. card_value c = a \<or> card_value c \<in> set vs) X)"
    unfolding cnt_def by (rule filter_disj_length) (use a in auto)
  with Cons show ?case by simp
qed

lemma cnt_sum: "distinct vs \<Longrightarrow> sum_list (map (cnt X) vs) \<le> length X"
  by (simp add: cnt_sum_eq)

lemma cnt2: "a \<noteq> b \<Longrightarrow> cnt X a + cnt X b \<le> length X"
  using cnt_sum [of "[a, b]" X] by simp

lemma cnt3: "a \<noteq> b \<Longrightarrow> a \<noteq> c \<Longrightarrow> b \<noteq> c \<Longrightarrow> cnt X a + cnt X b + cnt X c \<le> length X"
  using cnt_sum [of "[a, b, c]" X] by simp

text \<open>The cards whose rank is outside \<open>A\<close>, when every such rank occurs once.\<close>

lemma others_distinct:
  assumes "\<And>v. v \<notin> A \<Longrightarrow> cnt X v \<le> 1"
  shows "distinct (map card_value (filter (\<lambda>c. card_value c \<notin> A) X))"
  using assms
proof (induction X)
  case Nil
  then show ?case by simp
next
  case (Cons x X)
  have le: "cnt X v \<le> cnt (x # X) v" for v by (simp add: cnt_def)
  have ih: "distinct (map card_value (filter (\<lambda>c. card_value c \<notin> A) X))"
    by (rule Cons.IH) (use Cons.prems le in \<open>meson le_trans\<close>)
  show ?case
  proof (cases "card_value x \<in> A")
    case True
    with ih show ?thesis by simp
  next
    case False
    with Cons.prems [of "card_value x"] have "cnt X (card_value x) = 0" by (simp add: cnt_def)
    then have "card_value x \<notin> set (valsOf X)" using cnt_pos_iff [of X "card_value x"] by simp
    with ih False show ?thesis by (auto simp add: valsOf_def)
  qed
qed

subsection \<open>Kickers\<close>

lemma find_or_zero_sdesc:
  assumes "sorted_wrt (>) U" "k \<in> set U" "P k"
  shows "P (find_or_zero P U)" "find_or_zero P U \<in> set U" "k \<le> find_or_zero P U"
proof -
  from assms(2,3) have "List.find P U \<noteq> None" by (auto simp add: find_None)
  then obtain x where x: "List.find P U = Some x" by auto
  from find_sorted [OF assms(1) x] have "x \<in> set U" "P x" "\<forall>y \<in> set U. P y \<longrightarrow> y = x \<or> y < x"
    by auto
  moreover have "find_or_zero P U = x" by (simp add: find_or_zero_def x)
  ultimately show "P (find_or_zero P U)" "find_or_zero P U \<in> set U" "k \<le> find_or_zero P U"
    using assms(2,3) by auto
qed

lemma dominance:
  "sorted_wrt (>) a \<Longrightarrow> sorted_wrt (>) b \<Longrightarrow> set a \<subseteq> set b \<Longrightarrow>
   compareScore a (take (length a) b) \<le> 0"
proof (induction a arbitrary: b)
  case Nil
  then show ?case by simp
next
  case (Cons x a)
  from Cons.prems(3) obtain y b' where b: "b = y # b'" by (cases b) auto
  from Cons.prems b have xy: "x \<le> y" by auto
  show ?case
  proof (cases "x = y")
    case False
    with xy b show ?thesis by simp
  next
    case True
    have "set a \<subseteq> set b'"
    proof
      fix z assume z: "z \<in> set a"
      with Cons.prems(1) have "z < x" by auto
      moreover from z Cons.prems(3) b have "z = y \<or> z \<in> set b'" by auto
      ultimately show "z \<in> set b'" using True by auto
    qed
    moreover from Cons.prems b have "sorted_wrt (>) a" "sorted_wrt (>) b'" by simp_all
    ultimately have "compareScore a (take (length a) b') \<le> 0" by (rule Cons.IH [rotated 2])
    with True b show ?thesis by simp
  qed
qed

lemma sdesc_filter: "sorted_wrt (>) (l :: int list) \<Longrightarrow> sorted_wrt (>) (filter P l)"
  by (rule sorted_wrt_filter)

lemma sdesc_take: "sorted_wrt (>) (l :: int list) \<Longrightarrow> sorted_wrt (>) (take n l)"
  by (rule sorted_wrt_take)

lemma sdesc_top2:
  assumes "sorted_wrt (>) (l :: int list)" "a \<in> set l" "b \<in> set l" "b < a"
  shows "2 \<le> length l" "a \<le> l ! 0" "l ! 0 = a \<Longrightarrow> b \<le> l ! 1" "l ! 1 < l ! 0"
    "l ! 0 \<in> set l" "l ! 1 \<in> set l"
proof -
  from assms(2) obtain x l' where l: "l = x # l'" by (cases l) auto
  have "l' \<noteq> []" using assms l by auto
  then obtain y l'' where l': "l' = y # l''" by (cases l') auto
  show "2 \<le> length l" "l ! 1 < l ! 0" "l ! 0 \<in> set l" "l ! 1 \<in> set l"
    using assms(1) by (simp_all add: l l')
  show "a \<le> l ! 0" using assms(1,2) by (auto simp add: l l')
  show "b \<le> l ! 1" if "l ! 0 = a" using assms that by (auto simp add: l l')
qed

lemma evaluate7_cases [consumes 1, case_names b8 b7 b6 b5 b4 b3 b2 b1 b0]:
  assumes ne: "X \<noteq> []"
  obtains (b8) h where "sfOf X = Some h" "evaluate7 X = [8, h]"
  | (b7) "sfOf X = None" "c0Of X = 4"
      "evaluate7 X = [7, v0Of X, find_or_zero (\<lambda>v. v \<noteq> v0Of X) (uniqueDescOf X)]"
  | (b6) g where "sfOf X = None" "c0Of X = 3" "pairCandOf X = Some g"
      "evaluate7 X = [6, v0Of X, fst g]"
  | (b5) s where "sfOf X = None" "c0Of X \<noteq> 4" "c0Of X = 3 \<Longrightarrow> pairCandOf X = None"
      "flushSuitOf X = Some s" "evaluate7 X = 5 # take 5 (flushValsOf X)"
  | (b4) h where "sfOf X = None" "c0Of X \<noteq> 4" "c0Of X = 3 \<Longrightarrow> pairCandOf X = None"
      "flushSuitOf X = None" "shOf X = Some h" "evaluate7 X = [4, h]"
  | (b3) "sfOf X = None" "c0Of X = 3" "pairCandOf X = None" "flushSuitOf X = None" "shOf X = None"
      "evaluate7 X = 3 # v0Of X # take 2 (filter (\<lambda>v. v \<noteq> v0Of X) (uniqueDescOf X))"
  | (b2) "sfOf X = None" "c0Of X = 2" "2 \<le> length (pairsOf X)" "flushSuitOf X = None" "shOf X = None"
      "evaluate7 X = [2, pairsOf X ! 0, pairsOf X ! 1,
         find_or_zero (\<lambda>v. v \<noteq> pairsOf X ! 0 \<and> v \<noteq> pairsOf X ! 1) (uniqueDescOf X)]"
  | (b1) "sfOf X = None" "c0Of X = 2" "length (pairsOf X) < 2" "flushSuitOf X = None" "shOf X = None"
      "evaluate7 X = 1 # v0Of X # take 3 (filter (\<lambda>v. v \<noteq> v0Of X) (uniqueDescOf X))"
  | (b0) "sfOf X = None" "c0Of X \<noteq> 4" "c0Of X \<noteq> 3" "c0Of X \<noteq> 2" "flushSuitOf X = None" "shOf X = None"
      "evaluate7 X = 0 # take 5 (uniqueDescOf X)"
proof -
  note ch = evaluate7_chain [OF ne]
  show thesis
  proof (cases "sfOf X")
    case (Some h)
    with ch have "evaluate7 X = [8, h]" by simp
    with Some show thesis by (rule b8)
  next
    case sf: None
    show thesis
    proof (cases "c0Of X = 4")
      case True
      with sf ch show thesis by (intro b7) simp_all
    next
      case n4: False
      show thesis
      proof (cases "c0Of X = 3 \<and> pairCandOf X \<noteq> None")
        case True
        then obtain g where g: "pairCandOf X = Some g" by auto
        with True sf ch show thesis by (intro b6 [of g]) simp_all
      next
        case n6: False
        then have n6': "c0Of X = 3 \<Longrightarrow> pairCandOf X = None" by blast
        show thesis
        proof (cases "flushSuitOf X")
          case (Some s)
          with sf n4 n6 ch have "evaluate7 X = 5 # take 5 (flushValsOf X)" by simp
          with sf n4 n6' Some show thesis by (intro b5 [of s])
        next
          case fl: None
          show thesis
          proof (cases "shOf X")
            case (Some h)
            with sf n4 n6 fl ch have "evaluate7 X = [4, h]" by simp
            with sf n4 n6' fl Some show thesis by (intro b4 [of h])
          next
            case sh: None
            show thesis
            proof (cases "c0Of X = 3")
              case True
              with n6 have pc: "pairCandOf X = None" by blast
              from sf True pc fl sh ch
              have "evaluate7 X = 3 # v0Of X # take 2 (filter (\<lambda>v. v \<noteq> v0Of X) (uniqueDescOf X))"
                by simp
              with sf True pc fl sh show thesis by (intro b3)
            next
              case n3: False
              show thesis
              proof (cases "c0Of X = 2")
                case True
                show thesis
                proof (cases "2 \<le> length (pairsOf X)")
                  case l: True
                  from sf True l fl sh ch
                  have "evaluate7 X = [2, pairsOf X ! 0, pairsOf X ! 1,
                     find_or_zero (\<lambda>v. v \<noteq> pairsOf X ! 0 \<and> v \<noteq> pairsOf X ! 1) (uniqueDescOf X)]"
                    by simp
                  with sf True l fl sh show thesis by (intro b2)
                next
                  case l: False
                  from sf True l fl sh ch
                  have "evaluate7 X = 1 # v0Of X # take 3 (filter (\<lambda>v. v \<noteq> v0Of X) (uniqueDescOf X))"
                    by simp
                  with sf True l fl sh show thesis by (intro b1) simp_all
                qed
              next
                case n2: False
                from sf n4 n3 n2 fl sh ch have "evaluate7 X = 0 # take 5 (uniqueDescOf X)" by simp
                with sf n4 n3 n2 fl sh show thesis by (intro b0)
              qed
            qed
          qed
        qed
      qed
    qed
  qed
qed

lemma hasStraight_iff:
  assumes "A \<subseteq> {2..14}"
  shows "hasStraight (wheelSet A) h \<longleftrightarrow> (h = 5 \<and> {14, 2, 3, 4, 5} \<subseteq> A) \<or> (6 \<le> h \<and> {h - 4 .. h} \<subseteq> A)"
proof
  assume hs: "hasStraight (wheelSet A) h"
  then have sub: "{h - 4 .. h} \<subseteq> wheelSet A" by (simp add: hasStraight_def)
  have w: "wheelSet A \<subseteq> insert 1 A" by (auto simp add: wheelSet_def)
  have "h - 4 \<in> {h - 4 .. h}" by simp
  with sub w assms have "1 \<le> h - 4" by fastforce
  then have h5: "5 \<le> h" by simp
  show "(h = 5 \<and> {14, 2, 3, 4, 5} \<subseteq> A) \<or> (6 \<le> h \<and> {h - 4 .. h} \<subseteq> A)"
  proof (cases "h = 5")
    case True
    with sub have m: "1 \<in> wheelSet A" "2 \<in> wheelSet A" "3 \<in> wheelSet A" "4 \<in> wheelSet A" "5 \<in> wheelSet A"
      by auto
    from assms have "1 \<notin> A" by auto
    with m(1) have "14 \<in> A" by (auto simp add: wheelSet_def split: if_splits)
    moreover from m(2-5) have "2 \<in> A" "3 \<in> A" "4 \<in> A" "5 \<in> A"
      by (auto simp add: wheelSet_def split: if_splits)
    ultimately show ?thesis using True by simp
  next
    case False
    with h5 have h6: "6 \<le> h" by simp
    have "{h - 4 .. h} \<subseteq> A"
    proof
      fix x assume x: "x \<in> {h - 4 .. h}"
      with sub w have "x = 1 \<or> x \<in> A" by auto
      moreover from x h6 have "x \<noteq> 1" by simp
      ultimately show "x \<in> A" by simp
    qed
    with h6 show ?thesis by simp
  qed
next
  assume a: "(h = 5 \<and> {14, 2, 3, 4, 5} \<subseteq> A) \<or> (6 \<le> h \<and> {h - 4 .. h} \<subseteq> A)"
  then show "hasStraight (wheelSet A) h"
  proof
    assume w: "h = 5 \<and> {14, 2, 3, 4, 5} \<subseteq> A"
    have "x \<in> wheelSet A" if "x \<in> {1 .. 5}" for x :: int
    proof -
      from that have "x = 1 \<or> x = 2 \<or> x = 3 \<or> x = 4 \<or> x = 5" by auto
      with w show ?thesis by (auto simp add: wheelSet_def)
    qed
    with w show ?thesis by (auto simp add: hasStraight_def)
  next
    assume "6 \<le> h \<and> {h - 4 .. h} \<subseteq> A"
    then show ?thesis by (auto simp add: hasStraight_def wheelSet_def)
  qed
qed

lemma hasStraight_vals:
  assumes "A \<subseteq> {2..14}"
  shows "hasStraight (wheelSet A) h \<longleftrightarrow> 5 \<le> h \<and> set (straightVals h) \<subseteq> A"
proof -
  have "{h - 4 .. h} = {h, h - 1, h - 2, h - 3, h - 4}" by auto
  then show ?thesis unfolding hasStraight_iff [OF assms] straightVals_def by auto
qed

lemma straightVals_distinct: "distinct (straightVals h)"
  by (simp add: straightVals_def)

lemma straightVals_length: "length (straightVals h) = 5"
  by (simp add: straightVals_def)

lemma hasStraight_card:
  assumes "A \<subseteq> {2..14}" "finite A" "hasStraight (wheelSet A) h"
  shows "5 \<le> card A"
proof -
  from assms have "set (straightVals h) \<subseteq> A" by (simp add: hasStraight_vals)
  then have "card (set (straightVals h)) \<le> card A" using assms(2) by (simp add: card_mono)
  then show ?thesis by (simp add: distinct_card straightVals_distinct straightVals_length)
qed

subsection \<open>A made hand bounds the score from below\<close>

lemma c0_le_4: "distinct X \<Longrightarrow> X \<noteq> [] \<Longrightarrow> c0Of X \<le> 4"
  using top_props(2) [of X] cnt_le_4 [of X "v0Of X"] by simp

lemma sdesc_distinct: "sorted_wrt (>) (l :: int list) \<Longrightarrow> distinct l"
  by (induction l) auto

lemma sdesc_card: "sorted_wrt (>) (l :: int list) \<Longrightarrow> card (set l) = length l"
  by (simp add: distinct_card sdesc_distinct)

lemma others_sdesc: "sorted_wrt (>) (filter P (uniqueDescOf X))"
  using uniqueDescOf_sdesc by (rule sorted_wrt_filter)

lemma bound_straight_flush:
  assumes d: "distinct X" and len: "length X \<le> 7"
    and p: "hasStraight (wheelSet (set (suitValsOf X s))) h"
  shows "compareScore [8, h] (evaluate7 X) \<le> 0"
proof -
  have "5 \<le> card (set (suitValsOf X s))"
    using hasStraight_card [OF suitValsOf_range _ p] by simp
  also have "\<dots> \<le> length (suitValsOf X s)" by (rule card_length)
  finally have five: "5 \<le> length (suitValsOf X s)" .
  then have ne: "X \<noteq> []" by (auto simp add: suitValsOf_def)
  from len have l9: "length X \<le> 9" by simp
  have sf: "sfOf X = straightHighOf (set (suitValsOf X s))"
    using flush_of_suit [OF l9 five] by (rule sfOf_flush)
  from straightHighOf_ge [OF _ p]
  obtain h' where h': "straightHighOf (set (suitValsOf X s)) = Some h'" "h \<le> h'" by auto
  from ne show ?thesis
  proof (cases rule: evaluate7_cases)
    case (b8 h'')
    with sf h' show ?thesis by simp
  qed (use sf h' in simp_all)
qed

lemma bound_quads:
  assumes d: "distinct X" and len: "length X \<le> 7"
    and q: "4 \<le> cnt X q" and k: "k \<in> set (valsOf X)" "k \<noteq> q"
  shows "compareScore [7, q, k] (evaluate7 X) \<le> 0"
proof -
  from k have ne: "X \<noteq> []" by (auto simp add: valsOf_def)
  note tp = top_props [OF ne]
  have c4: "c0Of X = 4" using q tp(4) [of q] c0_le_4 [OF d ne] by simp
  from ne show ?thesis
  proof (cases rule: evaluate7_cases)
    case b7
    have cq: "cnt X q = 4" using q tp(4) [of q] c4 by simp
    have vq: "v0Of X = q"
    proof (rule ccontr)
      assume "v0Of X \<noteq> q"
      from cnt2 [OF this, of X] tp(2) c4 cq len show False by simp
    qed
    from find_or_zero_sdesc(3) [OF uniqueDescOf_sdesc, of k X "\<lambda>v. v \<noteq> q"] k
    have "k \<le> find_or_zero (\<lambda>v. v \<noteq> q) (uniqueDescOf X)" by simp
    with b7 vq show ?thesis by simp
  qed (use c4 in simp_all)
qed

lemma bound_full_house:
  assumes d: "distinct X" and len: "length X \<le> 7"
    and t: "3 \<le> cnt X t" and p: "2 \<le> cnt X p" and tp: "t \<noteq> p"
  shows "compareScore [6, t, p] (evaluate7 X) \<le> 0"
proof -
  from t have ne: "X \<noteq> []" by (auto simp add: cnt_def)
  note top = top_props [OF ne]
  have "3 \<le> c0Of X" using t top(4) [of t] by simp
  with c0_le_4 [OF d ne] have c34: "c0Of X = 3 \<or> c0Of X = 4" by auto
  have pc: "pairCandOf X \<noteq> None"
  proof
    assume "pairCandOf X = None"
    then have a: "\<And>v. v \<noteq> v0Of X \<Longrightarrow> cnt X v < 2" by (simp add: pairCand_None)
    show False
    proof (cases "t = v0Of X")
      case True
      with tp a [of p] p show False by simp
    next
      case False
      with a [of t] t show False by simp
    qed
  qed
  from ne show ?thesis
  proof (cases rule: evaluate7_cases)
    case (b6 g)
    have ct: "cnt X t = 3" using t top(4) [of t] b6(2) by simp
    then have tv: "t \<le> v0Of X" using top(5) [of t] b6(2) by simp
    show ?thesis
    proof (cases "t = v0Of X")
      case False
      with tv b6 show ?thesis by simp
    next
      case True
      note g = pairCand_Some [OF b6(3)]
      have pv: "p \<noteq> v0Of X" using True tp by simp
      from g(4) [OF pv p] have "p \<le> fst g"
      proof
        assume lt: "cnt X p < snd g"
        have "snd g \<le> 3" using g(2) top(4) [of "fst g"] b6(2) by simp
        with lt p have c: "cnt X p = 2" "cnt X (fst g) = 3" using g(2) by simp_all
        then have "fst g \<noteq> p" by auto
        from cnt3 [of "v0Of X" "fst g" p X] g(1) pv this top(2) b6(2) c len
        show ?thesis by simp
      next
        assume "cnt X p = snd g \<and> p \<le> fst g"
        then show ?thesis by simp
      qed
      with True b6 show ?thesis by simp
    qed
  qed (use c34 pc in auto)
qed

lemma bound_flush:
  assumes d: "distinct X" and len: "length X \<le> 7"
    and ks: "sorted_wrt (>) ks" "length ks = 5" "set ks \<subseteq> set (suitValsOf X s)"
  shows "compareScore (5 # ks) (evaluate7 X) \<le> 0"
proof -
  have "length ks = card (set ks)" using ks(1) by (simp add: sdesc_card)
  also have "\<dots> \<le> card (set (suitValsOf X s))" using ks(3) by (simp add: card_mono)
  also have "\<dots> \<le> length (suitValsOf X s)" by (rule card_length)
  finally have five: "5 \<le> length (suitValsOf X s)" using ks(2) by simp
  then have ne: "X \<noteq> []" by (auto simp add: suitValsOf_def)
  from len have l9: "length X \<le> 9" by simp
  note fl = flush_of_suit [OF l9 five]
  from ne show ?thesis
  proof (cases rule: evaluate7_cases)
    case (b5 s')
    have sd: "sorted_wrt (>) (flushValsOf X)"
      unfolding fl(2) using distinct_suitVals [OF d] by (rule js_sort_desc_sdesc)
    have "set ks \<subseteq> set (flushValsOf X)" using ks(3) by (simp add: fl(2))
    from dominance [OF ks(1) sd this] ks(2) b5 show ?thesis by simp
  qed (use fl(1) in simp_all)
qed

lemma bound_straight:
  assumes d: "distinct X" and len: "length X \<le> 7"
    and p: "hasStraight (wheelSet (set (valsOf X))) h"
  shows "compareScore [4, h] (evaluate7 X) \<le> 0"
proof -
  have "5 \<le> card (set (valsOf X))" using hasStraight_card [OF valsOf_range _ p] by simp
  then have ne: "X \<noteq> []" by (auto simp add: valsOf_def)
  from straightHighOf_ge [OF _ p]
  obtain h' where h': "shOf X = Some h'" "h \<le> h'" by (auto simp add: shOf_eq)
  from ne show ?thesis
  proof (cases rule: evaluate7_cases)
    case (b4 h'')
    with h' show ?thesis by simp
  qed (use h' in simp_all)
qed

lemma bound_trips:
  assumes d: "distinct X" and len: "length X \<le> 7"
    and t: "3 \<le> cnt X t" and ks: "sorted_wrt (>) ks" "length ks = 2" "set ks \<subseteq> set (valsOf X) - {t}"
  shows "compareScore (3 # t # ks) (evaluate7 X) \<le> 0"
proof -
  from t have ne: "X \<noteq> []" by (auto simp add: cnt_def)
  note top = top_props [OF ne]
  have "3 \<le> c0Of X" using t top(4) [of t] by simp
  with c0_le_4 [OF d ne] have c34: "c0Of X = 3 \<or> c0Of X = 4" by auto
  from ne show ?thesis
  proof (cases rule: evaluate7_cases)
    case b3
    from b3(3) have a: "\<And>v. v \<noteq> v0Of X \<Longrightarrow> cnt X v < 2" by (simp add: pairCand_None)
    have tv: "t = v0Of X" using a [of t] t by auto
    have "set ks \<subseteq> set (filter (\<lambda>v. v \<noteq> t) (uniqueDescOf X))" using ks(3) by auto
    from dominance [OF ks(1) others_sdesc this] ks(2) b3 tv show ?thesis by simp
  qed (use c34 in auto)
qed

lemma bound_two_pair:
  assumes d: "distinct X" and len: "length X \<le> 7"
    and p1: "2 \<le> cnt X p1" and p2: "2 \<le> cnt X p2" and lt: "p2 < p1"
    and k: "k \<in> set (valsOf X)" "k \<noteq> p1" "k \<noteq> p2"
  shows "compareScore [2, p1, p2, k] (evaluate7 X) \<le> 0"
proof -
  from k have ne: "X \<noteq> []" by (auto simp add: valsOf_def)
  note top = top_props [OF ne]
  have "2 \<le> c0Of X" using p1 top(4) [of p1] by simp
  with c0_le_4 [OF d ne] have c234: "c0Of X = 2 \<or> c0Of X = 3 \<or> c0Of X = 4" by auto
  have mem: "p1 \<in> set (pairsOf X)" "p2 \<in> set (pairsOf X)" if "c0Of X = 2"
    using that p1 p2 top(4) [of p1] top(4) [of p2] by (simp_all add: pairsOf_props)
  from ne show ?thesis
  proof (cases rule: evaluate7_cases)
    case b2
    note m = mem [OF b2(2)]
    note tt = sdesc_top2 [OF pairsOf_props(1) m lt]
    show ?thesis
    proof (cases "pairsOf X ! 0 = p1")
      case False
      with tt(2) b2(6) show ?thesis by simp
    next
      case e1: True
      show ?thesis
      proof (cases "pairsOf X ! 1 = p2")
        case False
        with tt(3) [OF e1] e1 b2(6) show ?thesis by simp
      next
        case e2: True
        from find_or_zero_sdesc(3) [OF uniqueDescOf_sdesc, of k X "\<lambda>v. v \<noteq> p1 \<and> v \<noteq> p2"] k
        have "k \<le> find_or_zero (\<lambda>v. v \<noteq> p1 \<and> v \<noteq> p2) (uniqueDescOf X)" by simp
        with e1 e2 b2(6) show ?thesis by simp
      qed
    qed
  next
    case b1
    from sdesc_top2(1) [OF pairsOf_props(1) mem [OF b1(2)] lt] b1(3) show ?thesis by simp
  qed (use c234 in auto)
qed

lemma bound_pair:
  assumes d: "distinct X" and len: "length X \<le> 7"
    and p: "2 \<le> cnt X p" and ks: "sorted_wrt (>) ks" "length ks = 3" "set ks \<subseteq> set (valsOf X) - {p}"
  shows "compareScore (1 # p # ks) (evaluate7 X) \<le> 0"
proof -
  from p have ne: "X \<noteq> []" by (auto simp add: cnt_def)
  note top = top_props [OF ne]
  have "2 \<le> c0Of X" using p top(4) [of p] by simp
  with c0_le_4 [OF d ne] have c234: "c0Of X = 2 \<or> c0Of X = 3 \<or> c0Of X = 4" by auto
  from ne show ?thesis
  proof (cases rule: evaluate7_cases)
    case b1
    have m: "p \<in> set (pairsOf X)" "v0Of X \<in> set (pairsOf X)"
      using b1(2) p top(4) [of p] top(2) by (simp_all add: pairsOf_props)
    have pv: "p = v0Of X"
    proof (rule ccontr)
      assume "p \<noteq> v0Of X"
      then consider "p < v0Of X" | "v0Of X < p" by linarith
      then have "2 \<le> length (pairsOf X)"
      proof cases
        case 1
        from sdesc_top2(1) [OF pairsOf_props(1) m(2) m(1) 1] show ?thesis .
      next
        case 2
        from sdesc_top2(1) [OF pairsOf_props(1) m(1) m(2) 2] show ?thesis .
      qed
      with b1(3) show False by simp
    qed
    have "set ks \<subseteq> set (filter (\<lambda>v. v \<noteq> p) (uniqueDescOf X))" using ks(3) by auto
    from dominance [OF ks(1) others_sdesc this] ks(2) b1 pv show ?thesis by simp
  qed (use c234 in auto)
qed

lemma bound_high_card:
  assumes d: "distinct X" and len: "length X \<le> 7"
    and ks: "sorted_wrt (>) ks" "length ks = 5" "set ks \<subseteq> set (valsOf X)"
  shows "compareScore (0 # ks) (evaluate7 X) \<le> 0"
proof -
  from ks have ne: "X \<noteq> []" by (auto simp add: valsOf_def)
  from ne show ?thesis
  proof (cases rule: evaluate7_cases)
    case b0
    have "set ks \<subseteq> set (uniqueDescOf X)" using ks(3) by simp
    from dominance [OF ks(1) uniqueDescOf_sdesc this] ks(2) b0 show ?thesis by simp
  qed simp_all
qed

text \<open>A made hand among the cards bounds the score from below.\<close>

lemma pat_lower_bound:
  assumes "distinct X" "length X \<le> 7" "pat X sc"
  shows "compareScore sc (evaluate7 X) \<le> 0"
  using assms(3)
proof cases
  case (pat8 s h)
  then show ?thesis using bound_straight_flush [OF assms(1,2)] by simp
next
  case (pat7 q k)
  then show ?thesis using bound_quads [OF assms(1,2)] by simp
next
  case (pat6 t p)
  then show ?thesis using bound_full_house [OF assms(1,2)] by simp
next
  case (pat5 ks s)
  then show ?thesis using bound_flush [OF assms(1,2)] by simp
next
  case (pat4 h)
  then show ?thesis using bound_straight [OF assms(1,2)] by simp
next
  case (pat3 t ks)
  then show ?thesis using bound_trips [OF assms(1,2)] by simp
next
  case (pat2 p1 p2 k)
  then show ?thesis using bound_two_pair [OF assms(1,2)] by simp
next
  case (pat1 p ks)
  then show ?thesis using bound_pair [OF assms(1,2)] by simp
next
  case (pat0 ks)
  then show ?thesis using bound_high_card [OF assms(1,2)] by simp
qed

subsection \<open>The score is a made hand\<close>

lemma sdesc_two:
  assumes "sorted_wrt (>) (l :: int list)" "a \<in> set l" "b \<in> set l" "a \<noteq> b"
  shows "2 \<le> length l"
proof -
  have "card {a, b} \<le> card (set l)" using assms(2,3) by (intro card_mono) simp_all
  with assms(4) show ?thesis using sdesc_card [OF assms(1)] by simp
qed

lemma others_length:
  assumes "\<And>v. v \<noteq> t \<Longrightarrow> cnt X v \<le> 1"
  shows "length (filter (\<lambda>v. v \<noteq> t) (uniqueDescOf X)) = length X - cnt X t"
proof -
  let ?F = "filter (\<lambda>c. card_value c \<notin> {t}) X"
  have dF: "distinct (map card_value ?F)" by (rule others_distinct) (use assms in simp)
  have "length (filter (\<lambda>v. v \<noteq> t) (uniqueDescOf X)) = card (set (filter (\<lambda>v. v \<noteq> t) (uniqueDescOf X)))"
    using sdesc_card [OF others_sdesc] by simp
  also have "set (filter (\<lambda>v. v \<noteq> t) (uniqueDescOf X)) = set (map card_value ?F)"
    by (auto simp add: valsOf_def)
  also have "card (set (map card_value ?F)) = length (map card_value ?F)"
    by (rule distinct_card [OF dF])
  also have "\<dots> = length X - cnt X t"
    using sum_length_filter_compl [of "\<lambda>c. card_value c = t" X] by (simp add: cnt_def)
  finally show ?thesis .
qed

lemma all_distinct_length:
  assumes "\<And>v. cnt X v \<le> 1"
  shows "length (uniqueDescOf X) = length X"
proof -
  have "distinct (map card_value (filter (\<lambda>c. card_value c \<notin> {}) X))"
    by (rule others_distinct) (use assms in simp)
  then have "distinct (valsOf X)" by (simp add: valsOf_def)
  then have "card (set (valsOf X)) = length (valsOf X)" by (rule distinct_card)
  moreover have "card (set (uniqueDescOf X)) = length (uniqueDescOf X)"
    by (rule sdesc_card [OF uniqueDescOf_sdesc])
  ultimately show ?thesis by (simp add: valsOf_def)
qed

lemma other_rank:
  assumes "cnt X v < length X"
  shows "\<exists>k \<in> set (valsOf X). k \<noteq> v"
proof (rule ccontr)
  assume "\<not> (\<exists>k \<in> set (valsOf X). k \<noteq> v)"
  then have "\<forall>c \<in> set X. card_value c = v" by (auto simp add: valsOf_def)
  then have "filter (\<lambda>c. card_value c = v) X = X" by (simp add: filter_id_conv)
  with assms show False by (simp add: cnt_def)
qed

lemma other_rank2:
  assumes "a \<noteq> b" "cnt X a + cnt X b < length X"
  shows "\<exists>k \<in> set (valsOf X). k \<noteq> a \<and> k \<noteq> b"
proof (rule ccontr)
  assume "\<not> (\<exists>k \<in> set (valsOf X). k \<noteq> a \<and> k \<noteq> b)"
  then have "\<forall>c \<in> set X. card_value c \<in> set [a, b]" by (auto simp add: valsOf_def)
  then have "filter (\<lambda>c. card_value c \<in> set [a, b]) X = X" by (simp only: filter_id_conv)
  moreover have "sum_list (map (cnt X) [a, b]) = length (filter (\<lambda>c. card_value c \<in> set [a, b]) X)"
    by (rule cnt_sum_eq) (use assms(1) in simp)
  ultimately show False using assms(2) by simp
qed

text \<open>The score of five to seven distinct cards is a made hand among them.\<close>

lemma evaluate7_pat:
  assumes d: "distinct X" and l5: "5 \<le> length X" and l7: "length X \<le> 7"
  shows "pat X (evaluate7 X)"
proof -
  from l5 have ne: "X \<noteq> []" by auto
  from l7 have l9: "length X \<le> 9" by simp
  note top = top_props [OF ne]
  from ne show ?thesis
  proof (cases rule: evaluate7_cases)
    case (b8 h)
    from flush_cases [OF l9] b8(1) obtain s where s: "flushSuitOf X = Some s"
      "flushValsOf X = js_sort desc (suitValsOf X s)"
      by (auto simp add: sfOf_none)
    from sfOf_flush [OF s] b8(1) have "straightHighOf (set (suitValsOf X s)) = Some h" by simp
    then have "hasStraight (wheelSet (set (suitValsOf X s))) h"
      by (rule straightHighOf_Some [rotated]) simp
    then show ?thesis unfolding b8(2) by (rule pat8)
  next
    case b7
    have c: "cnt X (v0Of X) = 4" using top(2) b7(2) by simp
    with l5 have "cnt X (v0Of X) < length X" by simp
    then obtain k where k: "k \<in> set (valsOf X)" "k \<noteq> v0Of X" using other_rank by blast
    note f = find_or_zero_sdesc [OF uniqueDescOf_sdesc, of k X "\<lambda>v. v \<noteq> v0Of X"]
    show ?thesis unfolding b7(3)
      by (rule pat7) (use c k f in simp_all)
  next
    case (b6 g)
    note pg = pairCand_Some [OF b6(3)]
    show ?thesis unfolding b6(4)
      by (rule pat6) (use top(2) b6(2) pg in simp_all)
  next
    case (b5 s)
    from flush_cases [OF l9] b5(4) obtain s' where s': "5 \<le> length (suitValsOf X s')"
      "flushValsOf X = js_sort desc (suitValsOf X s')"
      by auto
    have sd: "sorted_wrt (>) (flushValsOf X)"
      unfolding s'(2) using distinct_suitVals [OF d] by (rule js_sort_desc_sdesc)
    show ?thesis unfolding b5(5)
    proof (rule pat5)
      show "sorted_wrt (>) (take 5 (flushValsOf X))" using sd by (rule sorted_wrt_take)
      show "length (take 5 (flushValsOf X)) = 5" using s' by simp
      show "set (take 5 (flushValsOf X)) \<subseteq> set (suitValsOf X s')"
        using set_take_subset [of 5 "flushValsOf X"] by (simp add: s'(2))
    qed
  next
    case (b4 h)
    from b4(5) have "straightHighOf (set (valsOf X)) = Some h" by (simp add: shOf_eq)
    then have "hasStraight (wheelSet (set (valsOf X))) h"
      by (rule straightHighOf_Some [rotated]) simp
    then show ?thesis unfolding b4(6) by (rule pat4)
  next
    case b3
    from b3(3) have a: "\<And>v. v \<noteq> v0Of X \<Longrightarrow> cnt X v < 2" by (simp add: pairCand_None)
    have "length (filter (\<lambda>v. v \<noteq> v0Of X) (uniqueDescOf X)) = length X - cnt X (v0Of X)"
      by (rule others_length) (use a in fastforce)
    with top(2) b3(2) l5 have len: "2 \<le> length (filter (\<lambda>v. v \<noteq> v0Of X) (uniqueDescOf X))" by simp
    show ?thesis unfolding b3(6)
    proof (rule pat3)
      show "3 \<le> cnt X (v0Of X)" using top(2) b3(2) by simp
      show "sorted_wrt (>) (take 2 (filter (\<lambda>v. v \<noteq> v0Of X) (uniqueDescOf X)))"
        using others_sdesc by (rule sorted_wrt_take)
      show "length (take 2 (filter (\<lambda>v. v \<noteq> v0Of X) (uniqueDescOf X))) = 2" using len by simp
      show "set (take 2 (filter (\<lambda>v. v \<noteq> v0Of X) (uniqueDescOf X))) \<subseteq> set (valsOf X) - {v0Of X}"
        using set_take_subset [of 2 "filter (\<lambda>v. v \<noteq> v0Of X) (uniqueDescOf X)"] by auto
    qed
  next
    case b2
    let ?p = "pairsOf X"
    have l01: "0 < length ?p" "1 < length ?p" using b2(3) by linarith+
    have m: "?p ! 0 \<in> set ?p" "?p ! 1 \<in> set ?p"
      using nth_mem [OF l01(1)] nth_mem [OF l01(2)] by blast+
    then have c: "cnt X (?p ! 0) = 2" "cnt X (?p ! 1) = 2" by (simp_all add: pairsOf_props)
    have lt: "?p ! 1 < ?p ! 0" using sdesc_less [OF pairsOf_props(1), of 0 1 X] b2(3) by simp
    have "\<exists>k \<in> set (valsOf X). k \<noteq> ?p ! 0 \<and> k \<noteq> ?p ! 1"
      by (rule other_rank2) (use lt c l5 in simp_all)
    then obtain k where k: "k \<in> set (valsOf X)" "k \<noteq> ?p ! 0 \<and> k \<noteq> ?p ! 1" by blast
    note f = find_or_zero_sdesc [OF uniqueDescOf_sdesc, of k X "\<lambda>v. v \<noteq> ?p ! 0 \<and> v \<noteq> ?p ! 1"]
    show ?thesis unfolding b2(6)
      by (rule pat2) (use c lt k f in simp_all)
  next
    case b1
    have v0m: "v0Of X \<in> set (pairsOf X)" using top(2) b1(2) by (simp add: pairsOf_props)
    have a: "cnt X v \<le> 1" if "v \<noteq> v0Of X" for v
    proof (rule ccontr)
      assume "\<not> cnt X v \<le> 1"
      with top(4) [of v] b1(2) have "cnt X v = 2" by simp
      then have "v \<in> set (pairsOf X)" by (simp add: pairsOf_props)
      from sdesc_two [OF pairsOf_props(1) this v0m that] b1(3) show False by simp
    qed
    have "length (filter (\<lambda>v. v \<noteq> v0Of X) (uniqueDescOf X)) = length X - cnt X (v0Of X)"
      by (rule others_length) (use a in simp)
    with top(2) b1(2) l5 have len: "3 \<le> length (filter (\<lambda>v. v \<noteq> v0Of X) (uniqueDescOf X))" by simp
    show ?thesis unfolding b1(6)
    proof (rule pat1)
      show "2 \<le> cnt X (v0Of X)" using top(2) b1(2) by simp
      show "sorted_wrt (>) (take 3 (filter (\<lambda>v. v \<noteq> v0Of X) (uniqueDescOf X)))"
        using others_sdesc by (rule sorted_wrt_take)
      show "length (take 3 (filter (\<lambda>v. v \<noteq> v0Of X) (uniqueDescOf X))) = 3" using len by simp
      show "set (take 3 (filter (\<lambda>v. v \<noteq> v0Of X) (uniqueDescOf X))) \<subseteq> set (valsOf X) - {v0Of X}"
        using set_take_subset [of 3 "filter (\<lambda>v. v \<noteq> v0Of X) (uniqueDescOf X)"] by auto
    qed
  next
    case b0
    from b0(2-4) top(3) c0_le_4 [OF d ne] have "c0Of X = 1" by simp
    with top(4) have "\<And>v. cnt X v \<le> 1" by simp
    then have len: "length (uniqueDescOf X) = length X" by (rule all_distinct_length)
    show ?thesis unfolding b0(7)
    proof (rule pat0)
      show "sorted_wrt (>) (take 5 (uniqueDescOf X))" using uniqueDescOf_sdesc by (rule sorted_wrt_take)
      show "length (take 5 (uniqueDescOf X)) = 5" using len l5 by simp
      show "set (take 5 (uniqueDescOf X)) \<subseteq> set (valsOf X)"
        using set_take_subset [of 5 "uniqueDescOf X"] by simp
    qed
  qed
qed

subsection \<open>Sub-hands\<close>

lemma subseq_set: "subseq S H \<Longrightarrow> set S \<subseteq> set H"
  by (induction rule: list_emb.induct) auto

lemma subseq_distinct: "subseq S H \<Longrightarrow> distinct H \<Longrightarrow> distinct S"
proof (induction rule: list_emb.induct)
  case (list_emb_Nil ys)
  then show ?case by simp
next
  case (list_emb_Cons xs ys y)
  then show ?case by simp
next
  case (list_emb_Cons2 x y xs ys)
  then show ?case using subseq_set [of xs ys] by auto
qed

lemma subseq_length: "subseq S H \<Longrightarrow> length S \<le> length H"
  by (rule list_emb_length)

lemma subseq_cnt: "subseq S H \<Longrightarrow> cnt S v \<le> cnt H v"
  unfolding cnt_def by (intro subseq_length subseq_filter)

lemma subseq_vals: "subseq S H \<Longrightarrow> set (valsOf S) \<subseteq> set (valsOf H)"
  using subseq_set [of S H] by (auto simp add: valsOf_def)

lemma subseq_suitVals: "subseq S H \<Longrightarrow> set (suitValsOf S s) \<subseteq> set (suitValsOf H s)"
  using subseq_set [of S H] by (auto simp add: suitValsOf_def)

lemma hasStraight_mono: "A \<subseteq> B \<Longrightarrow> hasStraight (wheelSet A) h \<Longrightarrow> hasStraight (wheelSet B) h"
  by (auto simp add: hasStraight_def wheelSet_def split: if_splits)

text \<open>A made hand of some of the cards is a made hand of all of them.\<close>

lemma pat_mono:
  assumes sub: "subseq S H" and p: "pat S sc"
  shows "pat H sc"
  using p
proof cases
  case (pat8 s h)
  from hasStraight_mono [OF subseq_suitVals [OF sub] pat8(2)] show ?thesis
    unfolding pat8(1) by (rule pat.pat8)
next
  case (pat7 q k)
  show ?thesis unfolding pat7(1)
    by (rule pat.pat7) (use pat7 subseq_cnt [OF sub, of q] subseq_vals [OF sub] in auto)
next
  case (pat6 t p)
  show ?thesis unfolding pat6(1)
    by (rule pat.pat6) (use pat6 subseq_cnt [OF sub, of t] subseq_cnt [OF sub, of p] in auto)
next
  case (pat5 ks s)
  show ?thesis unfolding pat5(1)
    by (rule pat.pat5 [of _ _ s]) (use pat5 subseq_suitVals [OF sub, of s] in auto)
next
  case (pat4 h)
  from hasStraight_mono [OF subseq_vals [OF sub] pat4(2)] show ?thesis
    unfolding pat4(1) by (rule pat.pat4)
next
  case (pat3 t ks)
  show ?thesis unfolding pat3(1)
    by (rule pat.pat3) (use pat3 subseq_cnt [OF sub, of t] subseq_vals [OF sub] in auto)
next
  case (pat2 p1 p2 k)
  show ?thesis unfolding pat2(1)
    by (rule pat.pat2)
      (use pat2 subseq_cnt [OF sub, of p1] subseq_cnt [OF sub, of p2] subseq_vals [OF sub] in auto)
next
  case (pat1 p ks)
  show ?thesis unfolding pat1(1)
    by (rule pat.pat1) (use pat1 subseq_cnt [OF sub, of p] subseq_vals [OF sub] in auto)
next
  case (pat0 ks)
  show ?thesis unfolding pat0(1)
    by (rule pat.pat0) (use pat0 subseq_vals [OF sub] in auto)
qed

subsection \<open>Choosing the cards of a made hand\<close>

lemma cnt_count: "cnt X v = count (mset (valsOf X)) v"
  by (induction X) (auto simp add: cnt_def valsOf_def)

lemma select_cards:
  "(\<And>a. count M a \<le> cnt H a) \<Longrightarrow> \<exists>S. subseq S H \<and> mset (valsOf S) = M"
proof (induction H arbitrary: M)
  case Nil
  then have "count M a = 0" for a by (simp add: cnt_def)
  then have "M = {#}" by (simp add: multiset_eq_iff)
  then show ?case by (simp add: valsOf_def)
next
  case (Cons x H)
  let ?v = "card_value x"
  have cx: "cnt (x # H) a = (if a = ?v then cnt H a + 1 else cnt H a)" for a
    by (auto simp add: cnt_def)
  show ?case
  proof (cases "?v \<in># M")
    case True
    have "count (M - {#?v#}) a \<le> cnt H a" for a
      using Cons.prems [of a] cx [of a] by (cases "a = ?v") simp_all
    from Cons.IH [OF this] obtain S where S: "subseq S H" "mset (valsOf S) = M - {#?v#}" by blast
    have "subseq (x # S) (x # H)" using S(1) by simp
    moreover have "mset (valsOf (x # S)) = M" using S(2) True by (simp add: valsOf_def)
    ultimately show ?thesis by blast
  next
    case False
    then have z: "count M ?v = 0" by (simp add: not_in_iff)
    have "count M a \<le> cnt H a" for a
      using Cons.prems [of a] cx [of a] z by (cases "a = ?v") simp_all
    from Cons.IH [OF this] obtain S where S: "subseq S H" "mset (valsOf S) = M" by blast
    from S(1) have "subseq S (x # H)" by (rule list_emb_Cons)
    with S(2) show ?thesis by blast
  qed
qed

lemma selected_props:
  assumes "mset (valsOf S) = M"
  shows "length S = size M" "cnt S v = count M v" "set (valsOf S) = set_mset M"
proof -
  have "size (mset (valsOf S)) = length S" by (simp add: valsOf_def)
  with assms show "length S = size M" by simp
  show "cnt S v = count M v" using assms by (simp add: cnt_count)
  have "set_mset (mset (valsOf S)) = set (valsOf S)" by simp
  with assms show "set (valsOf S) = set_mset M" by simp
qed

lemma count_distinct_le:
  assumes "distinct ks" "set ks \<subseteq> set (valsOf H)"
  shows "count (mset ks) a \<le> cnt H a"
proof (cases "a \<in> set ks")
  case True
  with assms(2) have "0 < cnt H a" by (auto simp add: cnt_pos_iff)
  moreover from assms(1) True have "count (mset ks) a = 1" by (simp add: distinct_count_atmost_1)
  ultimately show ?thesis by simp
next
  case False
  then show ?thesis by (simp add: count_mset_0_iff [THEN iffD2])
qed

lemma one_suit:
  assumes "subseq S (filter (\<lambda>c. suit c = s) H)"
  shows "subseq S H" "suitValsOf S s = valsOf S"
proof -
  show "subseq S H" using assms subseq_filter_left [of "\<lambda>c. suit c = s" H]
    by (rule subseq_order.order_trans)
  from subseq_set [OF assms] have "\<forall>c \<in> set S. suit c = s" by auto
  then have "filter (\<lambda>c. suit c = s) S = S" by (simp add: filter_id_conv)
  then show "suitValsOf S s = valsOf S" by (simp add: suitValsOf_def valsOf_def)
qed

lemma suit_vals_filter: "valsOf (filter (\<lambda>c. suit c = s) H) = suitValsOf H s"
  by (simp add: suitValsOf_def valsOf_def)

text \<open>Every made hand is made by five of the cards.\<close>

lemma pat_witness:
  assumes "pat H sc"
  shows "\<exists>S. subseq S H \<and> length S = 5 \<and> pat S sc"
  using assms
proof cases
  case (pat8 s h)
  let ?H = "filter (\<lambda>c. suit c = s) H"
  from pat8(2) have h: "5 \<le> h" "set (straightVals h) \<subseteq> set (valsOf ?H)"
    by (simp_all add: hasStraight_vals [OF suitValsOf_range] suit_vals_filter)
  have "count (mset (straightVals h)) a \<le> cnt ?H a" for a
    using straightVals_distinct h(2) by (rule count_distinct_le)
  from select_cards [OF this] obtain S where S: "subseq S ?H" "mset (valsOf S) = mset (straightVals h)"
    by blast
  note os = one_suit [OF S(1)]
  note sp = selected_props [OF S(2)]
  have "set (straightVals h) \<subseteq> set (suitValsOf S s)" using sp(3) os(2) by simp
  with h(1) have "hasStraight (wheelSet (set (suitValsOf S s))) h"
    by (simp only: hasStraight_vals [OF suitValsOf_range])
  then have "pat S [8, h]" by (rule pat.pat8)
  moreover have "length S = 5" using sp(1) by (simp add: straightVals_length)
  ultimately show ?thesis using os(1) pat8(1) by blast
next
  case (pat7 q k)
  let ?M = "{#q, q, q, q, k#}"
  have "count ?M a \<le> cnt H a" for a
    using pat7(2,4) cnt_pos_iff [of H k] pat7(3) by auto
  from select_cards [OF this] obtain S where S: "subseq S H" "mset (valsOf S) = ?M" by blast
  note sp = selected_props [OF S(2)]
  have "pat S [7, q, k]" by (rule pat.pat7) (use sp pat7(4) in simp_all)
  moreover have "length S = 5" using sp(1) by simp
  ultimately show ?thesis using S(1) pat7(1) by blast
next
  case (pat6 t p)
  let ?M = "{#t, t, t, p, p#}"
  have "count ?M a \<le> cnt H a" for a
    using pat6(2-4) by auto
  from select_cards [OF this] obtain S where S: "subseq S H" "mset (valsOf S) = ?M" by blast
  note sp = selected_props [OF S(2)]
  have "pat S [6, t, p]" by (rule pat.pat6) (use sp pat6(4) in simp_all)
  moreover have "length S = 5" using sp(1) by simp
  ultimately show ?thesis using S(1) pat6(1) by blast
next
  case (pat5 ks s)
  let ?H = "filter (\<lambda>c. suit c = s) H"
  have "count (mset ks) a \<le> cnt ?H a" for a
    using sdesc_distinct [OF pat5(2)] pat5(4) by (intro count_distinct_le) (simp_all add: suit_vals_filter)
  from select_cards [OF this] obtain S where S: "subseq S ?H" "mset (valsOf S) = mset ks" by blast
  note os = one_suit [OF S(1)]
  note sp = selected_props [OF S(2)]
  have "pat S (5 # ks)" by (rule pat.pat5 [of _ _ s]) (use pat5 sp os in simp_all)
  moreover have "length S = 5" using sp(1) pat5(3) by simp
  ultimately show ?thesis using os(1) pat5(1) by blast
next
  case (pat4 h)
  from pat4(2) have h: "5 \<le> h" "set (straightVals h) \<subseteq> set (valsOf H)"
    by (simp_all add: hasStraight_vals [OF valsOf_range])
  have "count (mset (straightVals h)) a \<le> cnt H a" for a
    using straightVals_distinct h(2) by (rule count_distinct_le)
  from select_cards [OF this] obtain S where S: "subseq S H" "mset (valsOf S) = mset (straightVals h)"
    by blast
  note sp = selected_props [OF S(2)]
  have "set (straightVals h) \<subseteq> set (valsOf S)" using sp(3) by simp
  with h(1) have "hasStraight (wheelSet (set (valsOf S))) h"
    by (simp only: hasStraight_vals [OF valsOf_range])
  then have "pat S [4, h]" by (rule pat.pat4)
  moreover have "length S = 5" using sp(1) by (simp add: straightVals_length)
  ultimately show ?thesis using S(1) pat4(1) by blast
next
  case (pat3 t ks)
  let ?M = "{#t, t, t#} + mset ks"
  have tk: "t \<notin> set ks" using pat3(5) by auto
  have ck: "count (mset ks) a \<le> cnt H a" for a
    using sdesc_distinct [OF pat3(3)] by (rule count_distinct_le) (use pat3(5) in auto)
  have "count ?M a \<le> cnt H a" for a
  proof (cases "a = t")
    case True
    with tk pat3(2) show ?thesis by (simp add: count_mset_0_iff [THEN iffD2])
  next
    case False
    with ck [of a] show ?thesis by simp
  qed
  from select_cards [OF this] obtain S where S: "subseq S H" "mset (valsOf S) = ?M" by blast
  note sp = selected_props [OF S(2)]
  have "pat S (3 # t # ks)"
    by (rule pat.pat3) (use sp pat3 tk in \<open>auto simp add: count_mset_0_iff [THEN iffD2]\<close>)
  moreover have "length S = 5" using sp(1) pat3(4) by simp
  ultimately show ?thesis using S(1) pat3(1) by blast
next
  case (pat2 p1 p2 k)
  let ?M = "{#p1, p1, p2, p2, k#}"
  have "count ?M a \<le> cnt H a" for a
    using pat2(2-4,6,7) cnt_pos_iff [of H k] pat2(5) by auto
  from select_cards [OF this] obtain S where S: "subseq S H" "mset (valsOf S) = ?M" by blast
  note sp = selected_props [OF S(2)]
  have "pat S [2, p1, p2, k]" by (rule pat.pat2) (use sp pat2 in simp_all)
  moreover have "length S = 5" using sp(1) by simp
  ultimately show ?thesis using S(1) pat2(1) by blast
next
  case (pat1 p ks)
  let ?M = "{#p, p#} + mset ks"
  have pk: "p \<notin> set ks" using pat1(5) by auto
  have ck: "count (mset ks) a \<le> cnt H a" for a
    using sdesc_distinct [OF pat1(3)] by (rule count_distinct_le) (use pat1(5) in auto)
  have "count ?M a \<le> cnt H a" for a
  proof (cases "a = p")
    case True
    with pk pat1(2) show ?thesis by (simp add: count_mset_0_iff [THEN iffD2])
  next
    case False
    with ck [of a] show ?thesis by simp
  qed
  from select_cards [OF this] obtain S where S: "subseq S H" "mset (valsOf S) = ?M" by blast
  note sp = selected_props [OF S(2)]
  have "pat S (1 # p # ks)"
    by (rule pat.pat1) (use sp pat1 pk in \<open>auto simp add: count_mset_0_iff [THEN iffD2]\<close>)
  moreover have "length S = 5" using sp(1) pat1(4) by simp
  ultimately show ?thesis using S(1) pat1(1) by blast
next
  case (pat0 ks)
  have "count (mset ks) a \<le> cnt H a" for a
    using sdesc_distinct [OF pat0(2)] pat0(4) by (rule count_distinct_le)
  from select_cards [OF this] obtain S where S: "subseq S H" "mset (valsOf S) = mset ks" by blast
  note sp = selected_props [OF S(2)]
  have "pat S (0 # ks)" by (rule pat.pat0) (use sp pat0 in simp_all)
  moreover have "length S = 5" using sp(1) pat0(3) by simp
  ultimately show ?thesis using S(1) pat0(1) by blast
qed

subsection \<open>The comparison of scores\<close>

lemma cs_le_iff:
  "compareScore a b \<le> 0 \<longleftrightarrow> hd0 a < hd0 b \<or> (hd0 a = hd0 b \<and> compareScore (tl a) (tl b) \<le> 0)"
  by (cases a; cases b) (auto simp add: hd0_def)

lemma cs_refl: "compareScore a a = 0"
  by (induction a) auto

lemma cs_antisym: "compareScore a b = - compareScore b a"
  by (induction a b rule: compareScore.induct) auto

lemma cs_trans:
  "compareScore a b \<le> 0 \<Longrightarrow> compareScore b c \<le> 0 \<Longrightarrow> compareScore a c \<le> 0"
proof (induction "length a + length b + length c" arbitrary: a b c rule: less_induct)
  case less
  show ?case
  proof (cases "a = [] \<and> b = [] \<and> c = []")
    case True
    then show ?thesis by simp
  next
    case False
    then have m: "length (tl a) + length (tl b) + length (tl c) < length a + length b + length c"
      by (cases a; cases b; cases c) auto
    from less.prems(1) have ab: "hd0 a < hd0 b \<or> (hd0 a = hd0 b \<and> compareScore (tl a) (tl b) \<le> 0)"
      by (simp only: cs_le_iff [of a b])
    from less.prems(2) have bc: "hd0 b < hd0 c \<or> (hd0 b = hd0 c \<and> compareScore (tl b) (tl c) \<le> 0)"
      by (simp only: cs_le_iff [of b c])
    show ?thesis
    proof (cases "hd0 a < hd0 c")
      case True
      then show ?thesis by (simp only: cs_le_iff [of a c]) simp
    next
      case False
      with ab bc have e: "hd0 a = hd0 c" "compareScore (tl a) (tl b) \<le> 0" "compareScore (tl b) (tl c) \<le> 0"
        by auto
      from less.hyps [OF m e(2) e(3)] have "compareScore (tl a) (tl c) \<le> 0" .
      with e(1) show ?thesis by (simp only: cs_le_iff [of a c]) simp
    qed
  qed
qed

lemma cs_eq: "compareScore a b = 0 \<Longrightarrow> length a = length b \<Longrightarrow> a = b"
  by (induction a b rule: compareScore.induct) (auto split: if_splits)

lemma pat_length:
  assumes "pat X sc"
  shows "sc \<noteq> [] \<and> length sc =
    (if hd sc = 8 then 2 else if hd sc = 7 then 3 else if hd sc = 6 then 3 else if hd sc = 5 then 6
     else if hd sc = 4 then 2 else if hd sc = 3 then 4 else if hd sc = 2 then 4
     else if hd sc = 1 then 5 else 6)"
  using assms by cases simp_all

lemma pat_cs_eq:
  assumes "pat X a" "pat Y b" "compareScore a b = 0"
  shows "a = b"
proof -
  note la = pat_length [OF assms(1)] and lb = pat_length [OF assms(2)]
  from la lb obtain x a' y b' where ab: "a = x # a'" "b = y # b'" by (cases a; cases b) auto
  with assms(3) have "x = y" by (auto split: if_splits)
  with la lb ab have "length a = length b" by simp
  with assms(3) show ?thesis by (rule cs_eq)
qed

subsection \<open>The five-card hands\<close>

lemma combos_subseq: "ys \<in> set (combos k xs) \<Longrightarrow> subseq ys xs \<and> length ys = k"
proof (induction k xs arbitrary: ys rule: combos.induct)
  case (1 xs)
  then show ?case by simp
next
  case (2 k)
  then show ?case by simp
next
  case (3 k x xs)
  from "3.prems" have "ys \<in> (#) x ` set (combos k xs) \<or> ys \<in> set (combos (Suc k) xs)" by simp
  then show ?case
  proof
    assume "ys \<in> (#) x ` set (combos k xs)"
    then obtain zs where zs: "ys = x # zs" "zs \<in> set (combos k xs)" by auto
    from "3.IH"(1) [OF zs(2)] zs(1) show ?thesis by simp
  next
    assume "ys \<in> set (combos (Suc k) xs)"
    from "3.IH"(2) [OF this] show ?thesis by (simp add: list_emb_Cons)
  qed
qed

lemma subseq_combos: "subseq ys xs \<Longrightarrow> ys \<in> set (combos (length ys) xs)"
proof (induction rule: list_emb.induct)
  case (list_emb_Nil ys)
  then show ?case by simp
next
  case (list_emb_Cons xs ys y)
  then show ?case by (cases xs) simp_all
next
  case (list_emb_Cons2 x y xs ys)
  then show ?case by simp
qed

lemma combos_length: "length (combos k xs) = length xs choose k"
  by (induction k xs rule: combos.induct) simp_all

lemma best_fold:
  "\<exists>b. foldl best_step (Some (evaluate7 b0), b0) hs = (Some (evaluate7 b), b) \<and>
       b \<in> insert b0 (set hs) \<and>
       (\<forall>h \<in> insert b0 (set hs). compareScore (evaluate7 h) (evaluate7 b) \<le> 0)"
proof (induction hs arbitrary: b0)
  case Nil
  then show ?case by (simp add: cs_refl)
next
  case (Cons h hs)
  show ?case
  proof (cases "compareScore (evaluate7 h) (evaluate7 b0) > 0")
    case True
    then have st: "best_step (Some (evaluate7 b0), b0) h = (Some (evaluate7 h), h)"
      by (simp add: best_step_def)
    from Cons.IH [of h] obtain b where b:
      "foldl best_step (Some (evaluate7 h), h) hs = (Some (evaluate7 b), b)"
      "b \<in> insert h (set hs)"
      "\<forall>x \<in> insert h (set hs). compareScore (evaluate7 x) (evaluate7 b) \<le> 0"
      by blast
    from True have "compareScore (evaluate7 b0) (evaluate7 h) \<le> 0"
      using cs_antisym [of "evaluate7 b0" "evaluate7 h"] by simp
    moreover from b(3) have "compareScore (evaluate7 h) (evaluate7 b) \<le> 0" by simp
    ultimately have "compareScore (evaluate7 b0) (evaluate7 b) \<le> 0" by (rule cs_trans)
    with b st show ?thesis by auto
  next
    case False
    then have st: "best_step (Some (evaluate7 b0), b0) h = (Some (evaluate7 b0), b0)"
      by (simp add: best_step_def)
    from Cons.IH [of b0] obtain b where b:
      "foldl best_step (Some (evaluate7 b0), b0) hs = (Some (evaluate7 b), b)"
      "b \<in> insert b0 (set hs)"
      "\<forall>x \<in> insert b0 (set hs). compareScore (evaluate7 x) (evaluate7 b) \<le> 0"
      by blast
    from False have "compareScore (evaluate7 h) (evaluate7 b0) \<le> 0" by simp
    moreover from b(3) have "compareScore (evaluate7 b0) (evaluate7 b) \<le> 0" by simp
    ultimately have "compareScore (evaluate7 h) (evaluate7 b) \<le> 0" by (rule cs_trans)
    with b st show ?thesis by auto
  qed
qed

lemma best5From7_max:
  assumes "combos 5 H \<noteq> []"
  shows "best5From7 H \<in> set (combos 5 H)"
    "\<And>h. h \<in> set (combos 5 H) \<Longrightarrow> compareScore (evaluate7 h) (evaluate7 (best5From7 H)) \<le> 0"
proof -
  from assms obtain h0 hs where c: "combos 5 H = h0 # hs" by (cases "combos 5 H") auto
  have st: "best_step (None, []) h0 = (Some (evaluate7 h0), h0)" by (simp add: best_step_def)
  from best_fold [of h0 hs] obtain b where b:
    "foldl best_step (Some (evaluate7 h0), h0) hs = (Some (evaluate7 b), b)"
    "b \<in> insert h0 (set hs)"
    "\<forall>x \<in> insert h0 (set hs). compareScore (evaluate7 x) (evaluate7 b) \<le> 0"
    by blast
  have e: "best5From7 H = b" by (simp add: best5From7_def c st b(1))
  show "best5From7 H \<in> set (combos 5 H)" using b(2) by (simp add: e c)
  show "compareScore (evaluate7 h) (evaluate7 (best5From7 H)) \<le> 0" if "h \<in> set (combos 5 H)" for h
    using b(3) that by (auto simp add: e c)
qed

subsection \<open>Seven cards against their five-card hands\<close>

lemma five_below_seven:
  assumes d: "distinct H" and l: "length H \<le> 7" and S: "subseq S H" "length S = 5"
  shows "compareScore (evaluate7 S) (evaluate7 H) \<le> 0"
proof -
  have dS: "distinct S" using S(1) d by (rule subseq_distinct)
  have "pat S (evaluate7 S)" by (rule evaluate7_pat [OF dS]) (use S(2) in simp_all)
  with S(1) have "pat H (evaluate7 S)" by (rule pat_mono)
  with d l show ?thesis by (rule pat_lower_bound)
qed

lemma five_attains_seven:
  assumes d: "distinct H" and l5: "5 \<le> length H" and l: "length H \<le> 7"
  shows "\<exists>S. subseq S H \<and> length S = 5 \<and> evaluate7 S = evaluate7 H"
proof -
  have pH: "pat H (evaluate7 H)" using d l5 l by (rule evaluate7_pat)
  from pat_witness [OF this] obtain S where S: "subseq S H" "length S = 5" "pat S (evaluate7 H)"
    by blast
  have dS: "distinct S" using S(1) d by (rule subseq_distinct)
  have "compareScore (evaluate7 H) (evaluate7 S) \<le> 0"
    by (rule pat_lower_bound [OF dS _ S(3)]) (use S(2) in simp)
  moreover have "compareScore (evaluate7 S) (evaluate7 H) \<le> 0"
    using d l S(1,2) by (rule five_below_seven)
  ultimately have z: "compareScore (evaluate7 S) (evaluate7 H) = 0"
    using cs_antisym [of "evaluate7 S" "evaluate7 H"] by simp
  have "pat S (evaluate7 S)" by (rule evaluate7_pat [OF dS]) (use S(2) in simp_all)
  from pat_cs_eq [OF this pH z] S(1,2) show ?thesis by blast
qed

text \<open>
  C3. For seven distinct cards, \<open>combos 5\<close> lists the 21 five-card hands that the loops
  of \<open>best5From7\<close> visit. No five-card hand scores above \<open>evaluate7\<close> of the seven
  cards under \<open>compareScore\<close>, and the hand that \<open>best5From7\<close> returns is one of the 21
  and has exactly the score of the seven cards: the score of the seven cards is the maximum
  over the five-card hands.
\<close>

theorem evaluate7_best_of_21:
  assumes "distinct H" and "length H = 7"
  shows "length (combos 5 H) = 21 \<and>
    (\<forall>S \<in> set (combos 5 H). compareScore (evaluate7 S) (evaluate7 H) \<le> 0) \<and>
    best5From7 H \<in> set (combos 5 H) \<and>
    evaluate7 (best5From7 H) = evaluate7 H"
proof -
  have n: "length (combos 5 H) = 21"
    by (simp add: combos_length assms(2) binomial_fact' eval_nat_numeral)
  have ub: "compareScore (evaluate7 S) (evaluate7 H) \<le> 0" if "S \<in> set (combos 5 H)" for S
  proof -
    from combos_subseq [OF that] have "subseq S H" "length S = 5" by simp_all
    with assms show ?thesis by (intro five_below_seven) simp_all
  qed
  from five_attains_seven [of H] assms obtain S where S: "subseq S H" "length S = 5"
    "evaluate7 S = evaluate7 H" by auto
  from subseq_combos [OF S(1)] S(2) have Sm: "S \<in> set (combos 5 H)" by simp
  then have ne: "combos 5 H \<noteq> []" by auto
  note bm = best5From7_max [OF ne]
  let ?b = "best5From7 H"
  from combos_subseq [OF bm(1)] have b: "subseq ?b H" "length ?b = 5" by simp_all
  have db: "distinct ?b" using b(1) assms(1) by (rule subseq_distinct)
  have "compareScore (evaluate7 H) (evaluate7 ?b) \<le> 0" using bm(2) [OF Sm] S(3) by simp
  moreover have "compareScore (evaluate7 ?b) (evaluate7 H) \<le> 0" by (rule ub [OF bm(1)])
  ultimately have z: "compareScore (evaluate7 ?b) (evaluate7 H) = 0"
    using cs_antisym [of "evaluate7 ?b" "evaluate7 H"] by simp
  have "pat ?b (evaluate7 ?b)" by (rule evaluate7_pat [OF db]) (use b(2) in simp_all)
  moreover have "pat H (evaluate7 H)" by (rule evaluate7_pat) (use assms in simp_all)
  ultimately have "evaluate7 ?b = evaluate7 H" using z by (rule pat_cs_eq)
  with n ub bm(1) show ?thesis by blast
qed

theorem evaluate7_best_of_21_witness:
  "distinct sevenCards \<and> length sevenCards = 7 \<and>
   length (combos 5 sevenCards) = 21 \<and>
   take 5 sevenCards \<in> set (combos 5 sevenCards) \<and>
   compareScore (evaluate7 (take 5 sevenCards)) (evaluate7 sevenCards) \<le> 0 \<and>
   best5From7 sevenCards \<in> set (combos 5 sevenCards) \<and>
   evaluate7 (best5From7 sevenCards) = evaluate7 sevenCards"
proof -
  have a: "distinct sevenCards" "length sevenCards = 7" by code_simp+
  have m: "take 5 sevenCards \<in> set (combos 5 sevenCards)" by code_simp
  from evaluate7_best_of_21 [OF a] a m show ?thesis by blast
qed

subsection \<open>The wheel\<close>

lemma sum_ge_length: "(\<And>v. v \<in> set l \<Longrightarrow> 1 \<le> f v) \<Longrightarrow> length l \<le> sum_list (map f l)"
proof (induction l)
  case Nil
  then show ?case by simp
next
  case (Cons a l)
  from Cons.prems [of a] have "1 \<le> f a" by simp
  moreover have "length l \<le> sum_list (map f l)" by (rule Cons.IH, rule Cons.prems, simp)
  ultimately show ?case by simp
qed

lemma rest_cnt:
  assumes "set W \<subseteq> set (valsOf X)"
  shows "length (remove1 a W) \<le> sum_list (map (cnt X) (remove1 a W))"
proof (rule sum_ge_length)
  fix v assume "v \<in> set (remove1 a W)"
  then have "v \<in> set W" using set_remove1_subset [of a W] by blast
  with assms have "0 < cnt X v" by (auto simp add: cnt_pos_iff)
  then show "1 \<le> cnt X v" by simp
qed

text \<open>With five ranks on the table, seven cards leave no room for four of a kind or a full house.\<close>

lemma no_room_for_quads:
  assumes W: "distinct W" "set W \<subseteq> set (valsOf X)" "length W = 5" and l: "length X \<le> 7"
  shows "cnt X q < 4"
proof -
  let ?vs = "q # remove1 q W"
  have d: "distinct ?vs" using W(1) by simp
  have "length (remove1 q W) \<le> sum_list (map (cnt X) (remove1 q W))" using W(2) by (rule rest_cnt)
  moreover have "4 \<le> length (remove1 q W)" using W(3) by (simp add: length_remove1)
  moreover have "sum_list (map (cnt X) ?vs) \<le> length X" using d by (rule cnt_sum)
  ultimately show ?thesis using l by simp
qed

lemma no_room_for_full_house:
  assumes W: "distinct W" "set W \<subseteq> set (valsOf X)" "length W = 5" and l: "length X \<le> 7"
    and tp: "t \<noteq> p"
  shows "cnt X t + cnt X p < 5"
proof -
  let ?R = "remove1 t (remove1 p W)"
  let ?vs = "t # p # ?R"
  have sR: "set ?R = set W - {p} - {t}" using W(1) by simp
  have d: "distinct ?vs" using W(1) tp by (simp add: sR)
  have "set (remove1 p W) \<subseteq> set (valsOf X)" using W(1,2) by auto
  then have "length ?R \<le> sum_list (map (cnt X) ?R)" by (rule rest_cnt)
  moreover have "3 \<le> length ?R" using W(3) by (simp add: length_remove1)
  moreover have "sum_list (map (cnt X) ?vs) \<le> length X" using d by (rule cnt_sum)
  ultimately show ?thesis using l by simp
qed

lemma cs_lt_le_trans:
  assumes "compareScore a b < 0" "compareScore b c \<le> 0"
  shows "compareScore a c < 0"
proof (rule ccontr)
  assume "\<not> compareScore a c < 0"
  then have "compareScore c a \<le> 0" using cs_antisym [of c a] by simp
  with assms(2) have "compareScore b a \<le> 0" by (rule cs_trans)
  with assms(1) show False using cs_antisym [of a b] by simp
qed

lemma evaluate7_Nil: "evaluate7 [] = [0]"
  by code_simp

text \<open>
  Cards with no straight, fewer than five of every suit, no four of a kind and no three of
  a kind beside a pair are scored in one of the four categories below the straight.
\<close>

lemma below_straight_category:
  assumes l: "length Z \<le> 7"
    and ns: "\<And>k. \<not> hasStraight (wheelSet (set (valsOf Z))) k"
    and nf: "\<And>s. length (suitValsOf Z s) < 5"
    and nq: "\<And>v. cnt Z v < 4"
    and nh: "\<And>t p. 3 \<le> cnt Z t \<Longrightarrow> 2 \<le> cnt Z p \<Longrightarrow> t = p"
  shows "\<exists>c t. evaluate7 Z = c # t \<and> c < 4"
proof (cases "Z = []")
  case True
  then show ?thesis by (simp add: evaluate7_Nil)
next
  case ne: False
  from l have l9: "length Z \<le> 9" by simp
  have fl: "flushSuitOf Z = None"
  proof (rule ccontr)
    assume "flushSuitOf Z \<noteq> None"
    with flush_cases [OF l9] obtain s where "5 \<le> length (suitValsOf Z s)" by auto
    with nf [of s] show False by simp
  qed
  note top = top_props [OF ne]
  from ne show ?thesis
  proof (cases rule: evaluate7_cases)
    case (b8 h)
    with sfOf_none [OF fl] show ?thesis by simp
  next
    case b7
    with top(2) nq [of "v0Of Z"] show ?thesis by simp
  next
    case (b6 g)
    note pg = pairCand_Some [OF b6(3)]
    from nh [of "v0Of Z" "fst g"] top(2) b6(2) pg(1,2,3) show ?thesis by simp
  next
    case (b5 s)
    with fl show ?thesis by simp
  next
    case (b4 h)
    from b4(5) have "straightHighOf (set (valsOf Z)) = Some h" by (simp add: shOf_eq)
    then have "hasStraight (wheelSet (set (valsOf Z))) h"
      by (rule straightHighOf_Some [rotated]) simp
    with ns [of h] show ?thesis by simp
  next
    case b3
    then show ?thesis by simp
  next
    case b2
    then show ?thesis by simp
  next
    case b1
    then show ?thesis by simp
  next
    case b0
    then show ?thesis by simp
  qed
qed

text \<open>Five cards of one suit score as a flush or better, above every straight.\<close>

lemma flush_above_straights:
  assumes d: "distinct X" and l: "length X \<le> 7" and f: "5 \<le> length (suitValsOf X s)"
  shows "compareScore [4, h] (evaluate7 X) < 0"
proof -
  let ?ks = "take 5 (js_sort desc (suitValsOf X s))"
  have "sorted_wrt (>) (js_sort desc (suitValsOf X s))"
    using distinct_suitVals [OF d] by (rule js_sort_desc_sdesc)
  then have "sorted_wrt (>) ?ks" by (rule sorted_wrt_take)
  moreover have "length ?ks = 5" using f by simp
  moreover have "set ?ks \<subseteq> set (suitValsOf X s)"
    using set_take_subset [of 5 "js_sort desc (suitValsOf X s)"] by simp
  ultimately have "pat X (5 # ?ks)" by (rule pat5)
  with d l have "compareScore (5 # ?ks) (evaluate7 X) \<le> 0" by (rule pat_lower_bound)
  moreover have "compareScore [4, h] (5 # ?ks) < 0" by simp
  ultimately show ?thesis by (rule cs_lt_le_trans [rotated])
qed

text \<open>
  C8 (amended). Take at most seven distinct cards that hold the ranks A, 2, 3, 4, 5, no
  straight with a high card of six or more, and fewer than five cards of every suit. Their
  score is \<open>[4, 5]\<close>, a five-high straight. It is strictly below the score of every
  hand of at most seven distinct cards that holds a straight with a high card of six or
  more, and strictly above the score of every hand of at most seven cards with no
  straight, fewer than five cards of every suit, no four of a kind and no three of a kind
  beside a pair.
\<close>

theorem wheel_is_five_high:
  assumes dX: "distinct X" and lX: "length X \<le> 7"
    and wheel: "{14, 5, 4, 3, 2} \<subseteq> set (valsOf X)"
    and best: "\<And>k. 6 \<le> k \<Longrightarrow> \<not> hasStraight (set (valsOf X)) k"
    and noflush: "\<And>s. length (suitValsOf X s) < 5"
    and dY: "distinct Y" and lY: "length Y \<le> 7"
    and sY: "hasStraight (set (valsOf Y)) h" "6 \<le> h"
    and lZ: "length Z \<le> 7"
    and nsZ: "\<And>k. \<not> hasStraight (wheelSet (set (valsOf Z))) k"
    and nfZ: "\<And>s. length (suitValsOf Z s) < 5"
    and nqZ: "\<And>v. cnt Z v < 4"
    and nhZ: "\<And>t p. 3 \<le> cnt Z t \<Longrightarrow> 2 \<le> cnt Z p \<Longrightarrow> t = p"
  shows "evaluate7 X = [4, 5] \<and>
    compareScore (evaluate7 X) (evaluate7 Y) < 0 \<and> compareScore (evaluate7 X) (evaluate7 Z) > 0"
proof -
  let ?W = "[14, 5, 4, 3, 2] :: int list"
  have W: "distinct ?W" "set ?W \<subseteq> set (valsOf X)" "length ?W = 5" using wheel by simp_all
  have "card (set ?W) \<le> card (set (valsOf X))" using W(2) by (intro card_mono) simp_all
  also have "\<dots> \<le> length (valsOf X)" by (rule card_length)
  finally have l5: "5 \<le> length X" by (simp add: valsOf_def)
  have "hasStraight (wheelSet (set (valsOf X))) 5"
    using wheel by (simp add: hasStraight_iff [OF valsOf_range])
  then have "pat X [4, 5]" by (rule pat4)
  with dX lX have lb: "compareScore [4, 5] (evaluate7 X) \<le> 0" by (rule pat_lower_bound)
  have nf: "\<not> 5 \<le> card (set (suitValsOf X s))" for s
    using noflush [of s] card_length [of "suitValsOf X s"] by simp
  have "pat X (evaluate7 X)" using dX l5 lX by (rule evaluate7_pat)
  then have e: "evaluate7 X = [4, 5]"
  proof cases
    case (pat8 s h)
    from hasStraight_card [OF suitValsOf_range _ pat8(2)] nf [of s] show ?thesis by simp
  next
    case (pat7 q k)
    with no_room_for_quads [OF W lX, of q] show ?thesis by simp
  next
    case (pat6 t p)
    with no_room_for_full_house [OF W lX, of t p] show ?thesis by simp
  next
    case (pat5 ks s)
    have "length ks = card (set ks)" using pat5(2) by (simp add: sdesc_card)
    also have "\<dots> \<le> card (set (suitValsOf X s))" using pat5(4) by (simp add: card_mono)
    finally show ?thesis using nf [of s] pat5(3) by simp
  next
    case (pat4 h)
    from pat4(2) have "h = 5 \<or> (6 \<le> h \<and> {h - 4 .. h} \<subseteq> set (valsOf X))"
      using hasStraight_iff [OF valsOf_range, of X h] by blast
    with best [of h] pat4(1) show ?thesis by (auto simp add: hasStraight_def)
  next
    case (pat3 t ks)
    with lb show ?thesis by simp
  next
    case (pat2 p1 p2 k)
    with lb show ?thesis by simp
  next
    case (pat1 p ks)
    with lb show ?thesis by simp
  next
    case (pat0 ks)
    with lb show ?thesis by simp
  qed
  have "hasStraight (wheelSet (set (valsOf Y))) h"
    using sY(1) by (auto simp add: hasStraight_def wheelSet_def)
  then have "pat Y [4, h]" by (rule pat4)
  with dY lY have "compareScore [4, h] (evaluate7 Y) \<le> 0" by (rule pat_lower_bound)
  moreover have "compareScore [4, 5] [4, h] < 0" using sY(2) by simp
  ultimately have y: "compareScore [4, 5] (evaluate7 Y) < 0" by (rule cs_lt_le_trans [rotated])
  from below_straight_category [OF lZ nsZ nfZ nqZ nhZ]
  obtain c t where "evaluate7 Z = c # t" "c < 4" by blast
  then have z: "compareScore [4, 5] (evaluate7 Z) > 0" by simp
  from e y z show ?thesis by simp
qed

theorem wheel_is_five_high_witness:
  "distinct wheelHand \<and> length wheelHand \<le> 7 \<and>
   distinct sixHighHand \<and> length sixHighHand \<le> 7 \<and> length tripsHand \<le> 7 \<and>
   evaluate7 wheelHand = [4, 5] \<and>
   compareScore (evaluate7 wheelHand) (evaluate7 sixHighHand) < 0 \<and>
   compareScore (evaluate7 wheelHand) (evaluate7 tripsHand) > 0"
proof -
  have a: "distinct wheelHand" "length wheelHand \<le> 7" by code_simp+
  have v: "set (valsOf wheelHand) = {14, 2, 3, 4, 5, 9, 13}"
    by (simp add: wheelHand_def valsOf_def card_value_def mkCard_def)
  have w: "{14, 5, 4, 3, 2} \<subseteq> set (valsOf wheelHand)" by (simp add: v)
  have b: "\<not> hasStraight (set (valsOf wheelHand)) k" if "6 \<le> k" for k
  proof
    assume "hasStraight (set (valsOf wheelHand)) k"
    then have sub: "{k - 4 .. k} \<subseteq> {14, 2, 3, 4, 5, 9, 13}" by (simp add: hasStraight_def v)
    have "k \<in> {k - 4 .. k}" "k - 1 \<in> {k - 4 .. k}" "k - 2 \<in> {k - 4 .. k}" by simp_all
    with sub have "k \<in> {14, 2, 3, 4, 5, 9, 13}" "k - 1 \<in> {14, 2, 3, 4, 5, 9, 13}"
      "k - 2 \<in> {14, 2, 3, 4, 5, 9, 13 :: int}"
      by blast+
    with that show False by auto
  qed
  have f: "length (suitValsOf wheelHand s) < 5" for s
    by (cases s) (simp_all add: wheelHand_def suitValsOf_def mkCard_def)
  have y: "distinct sixHighHand" "length sixHighHand \<le> 7" by code_simp+
  have vy: "set (valsOf sixHighHand) = {2, 3, 4, 5, 6, 9, 13}"
    by (simp add: sixHighHand_def valsOf_def card_value_def mkCard_def)
  have "{6 - 4 .. 6} = {6, 5, 4, 3, 2 :: int}" by auto
  then have sy: "hasStraight (set (valsOf sixHighHand)) 6" "(6 :: int) \<le> 6"
    by (simp_all add: hasStraight_def vy)
  have lz: "length tripsHand \<le> 7" by code_simp
  have vz: "set (valsOf tripsHand) = {13, 2, 7, 9, 11}"
    by (simp add: tripsHand_def valsOf_def card_value_def mkCard_def)
  have nsz: "\<not> hasStraight (wheelSet (set (valsOf tripsHand))) k" for k
  proof
    assume "hasStraight (wheelSet (set (valsOf tripsHand))) k"
    then have sub: "{k - 4 .. k} \<subseteq> {13, 2, 7, 9, 11}" by (simp add: hasStraight_def wheelSet_def vz)
    have "k \<in> {k - 4 .. k}" "k - 1 \<in> {k - 4 .. k}" by simp_all
    with sub have "k \<in> {13, 2, 7, 9, 11}" "k - 1 \<in> {13, 2, 7, 9, 11 :: int}" by blast+
    then show False by auto
  qed
  have nfz: "length (suitValsOf tripsHand s) < 5" for s
    by (cases s) (simp_all add: tripsHand_def suitValsOf_def mkCard_def)
  have cz: "cnt tripsHand v = (if v = 13 then 3 else if v \<in> {2, 7, 9, 11} then 1 else 0)" for v
    by (simp add: cnt_def tripsHand_def mkCard_def card_value_def)
  have nqz: "cnt tripsHand v < 4" for v by (simp add: cz)
  have nhz: "t = p" if "3 \<le> cnt tripsHand t" "2 \<le> cnt tripsHand p" for t p
    using that by (simp add: cz split: if_splits)
  from wheel_is_five_high [OF a w b f y sy lz nsz nfz nqz nhz] a y lz show ?thesis by blast
qed

text \<open>
  The original wording covers every card set whose best straight is the wheel. With five
  spades beside the wheel the score is that of the flush, above the six-high straight.
\<close>

theorem wheel_is_five_high_counterexample:
  "distinct wheelFlushHand \<and> length wheelFlushHand = 7 \<and>
   set [14, 5, 4, 3, 2] \<subseteq> set (valsOf wheelFlushHand) \<and>
   getStraightHigh (uniqueDescOf wheelFlushHand) = Some 5 \<and>
   evaluate7 wheelFlushHand = [5, 14, 9, 4, 3, 2] \<and>
   evaluate7 sixHighHand = [4, 6] \<and>
   compareScore (evaluate7 wheelFlushHand) (evaluate7 sixHighHand) = 1"
  by code_simp

end
